theory Spec2Isabelle
  imports Main "HOL-Library.Sublist"
begin

section \<open>Text\<close>

text \<open>
  A Python \<^verbatim>\<open>str\<close> is a sequence of Unicode code points. A code point is modelled as a
  natural number and a text as a list of them, so that no text Python can hold is excluded.
  \<open>lit\<close> turns an ASCII literal of the source into such a text.
\<close>

type_synonym codepoint = nat
type_synonym str = "codepoint list"

definition lit :: "string \<Rightarrow> str" where
  "lit s = map of_char s"

definition newline :: codepoint where
  "newline = 10"

definition quote :: codepoint where
  "quote = 39"

text \<open>
  \<^verbatim>\<open>needle in haystack\<close> on two \<^verbatim>\<open>str\<close> values: the needle occurs as a contiguous
  run of the haystack.
\<close>

fun str_contains :: "str \<Rightarrow> str \<Rightarrow> bool" where
  "str_contains needle [] = (needle = [])"
| "str_contains needle (x # xs) = (prefix needle (x # xs) \<or> str_contains needle xs)"

text \<open>
  \<^verbatim>\<open>str.isspace\<close> of one code point, as CPython tabulates it; the regular expression
  class \<^verbatim>\<open>\s\<close> of a \<^verbatim>\<open>str\<close> pattern and \<^verbatim>\<open>str.strip()\<close> both use this set.
\<close>

definition is_space :: "codepoint \<Rightarrow> bool" where
  "is_space c \<longleftrightarrow>
     (9 \<le> c \<and> c \<le> 13) \<or> (28 \<le> c \<and> c \<le> 32) \<or> c = 133 \<or> c = 160 \<or> c = 5760 \<or>
     (8192 \<le> c \<and> c \<le> 8202) \<or> c = 8232 \<or> c = 8233 \<or> c = 8239 \<or> c = 8287 \<or> c = 12288"

definition strip :: "str \<Rightarrow> str" where
  "strip s = rev (dropWhile is_space (rev (dropWhile is_space s)))"

text \<open>
  \<^verbatim>\<open>s.split(sep)\<close> for a one-character separator: always at least one piece. The
  \<open>[]\<close> branch of the inner case is never taken; it is there to keep the function total.
\<close>

fun split :: "codepoint \<Rightarrow> str \<Rightarrow> str list" where
  "split sep [] = [[]]"
| "split sep (c # cs) =
     (if c = sep then [] # split sep cs
      else (case split sep cs of [] \<Rightarrow> [[c]] | l # ls \<Rightarrow> (c # l) # ls))"

text \<open>
  \<^verbatim>\<open>str.upper()\<close> follows the Unicode case tables, which are not part of the repository:
  the functions that call it take it as the parameter \<open>upper\<close>. \<open>ascii_upper\<close> is what it
  does on ASCII letters, and is used where a concrete instance is evaluated.
\<close>

definition ascii_upper :: "str \<Rightarrow> str" where
  "ascii_upper s = map (\<lambda>c. if 97 \<le> c \<and> c \<le> 122 then c - 32 else c) s"

section \<open>The fragment of \<^verbatim>\<open>re\<close> that the agent uses\<close>

text \<open>
  Every pattern of the source is a sequence of items, each a single character class, a
  greedy star of one (\<^verbatim>\<open>.*\<close>, \<^verbatim>\<open>\s*\<close>, \<^verbatim>\<open>[^']*\<close>, \<^verbatim>\<open>[0-9]+\<close> as one and a
  star) or a lazy star of one (\<^verbatim>\<open>.*?\<close>). \<open>Dot\<close> is \<^verbatim>\<open>.\<close> without \<^verbatim>\<open>re.DOTALL\<close>,
  \<open>Any_char\<close> is \<^verbatim>\<open>.\<close> with it.
\<close>

datatype cclass =
    Chr codepoint
  | Dot
  | Any_char
  | Space
  | Range codepoint codepoint
  | Not_chr codepoint

fun accepts :: "cclass \<Rightarrow> codepoint \<Rightarrow> bool" where
  "accepts (Chr c) x = (x = c)"
| "accepts Dot x = (x \<noteq> newline)"
| "accepts Any_char x = True"
| "accepts Space x = is_space x"
| "accepts (Range lo hi) x = (lo \<le> x \<and> x \<le> hi)"
| "accepts (Not_chr c) x = (x \<noteq> c)"

datatype item = One cclass | Star cclass | Lazy_star cclass

type_synonym regex = "item list"

definition lits :: "str \<Rightarrow> regex" where
  "lits s = map (\<lambda>c. One (Chr c)) s"

text \<open>
  \<^verbatim>\<open>re.match\<close>: the match that the backtracking engine finds first at the start of the
  text, given as the text left after it, or \<open>None\<close>. A greedy star first tries one more
  character and gives it back only when the rest of the pattern fails; a lazy star first
  tries the rest of the pattern and takes one more character only when that fails.
\<close>

fun re_match :: "regex \<Rightarrow> str \<Rightarrow> str option" where
  "re_match [] s = Some s"
| "re_match (One c # r) [] = None"
| "re_match (One c # r) (x # xs) = (if accepts c x then re_match r xs else None)"
| "re_match (Star c # r) [] = re_match r []"
| "re_match (Star c # r) (x # xs) =
     (if accepts c x then
        (case re_match (Star c # r) xs of
           Some t \<Rightarrow> Some t
         | None \<Rightarrow> re_match r (x # xs))
      else re_match r (x # xs))"
| "re_match (Lazy_star c # r) [] = re_match r []"
| "re_match (Lazy_star c # r) (x # xs) =
     (case re_match r (x # xs) of
        Some t \<Rightarrow> Some t
      | None \<Rightarrow> (if accepts c x then re_match (Lazy_star c # r) xs else None))"

text \<open>\<^verbatim>\<open>re.search(pattern, s)\<close> as a truth value: a match starts somewhere in the text.\<close>

fun re_search :: "regex \<Rightarrow> str \<Rightarrow> bool" where
  "re_search r [] = (re_match r [] \<noteq> None)"
| "re_search r (x # xs) = (re_match r (x # xs) \<noteq> None \<or> re_search r xs)"

text \<open>
  \<^verbatim>\<open>re.sub(pattern, repl, s)\<close> with the default \<^verbatim>\<open>count=0\<close>: every match found
  scanning from the left is replaced, and the scan goes on after it. An empty match is
  replaced too and the scan moves one character on (Python 3.7 and later). The
  replacement texts of the source hold no backslash, so they are inserted as they are.
\<close>

function re_sub :: "regex \<Rightarrow> str \<Rightarrow> str \<Rightarrow> str" where
  "re_sub r repl s =
     (case re_match r s of
        Some t \<Rightarrow>
          if length t < length s then repl @ re_sub r repl t
          else (case s of [] \<Rightarrow> repl | x # xs \<Rightarrow> repl @ x # re_sub r repl xs)
      | None \<Rightarrow> (case s of [] \<Rightarrow> [] | x # xs \<Rightarrow> x # re_sub r repl xs))"
  by pat_completeness auto
termination
  by (relation "measure (\<lambda>(r, repl, s). length s)") auto

section \<open>The world: files and what the program does to it\<close>

text \<open>
  A file has the text it decodes to and a flag: whether its bytes are well-formed UTF-8.
  Whether an access to the file system succeeds is not a property of the file alone
  (permissions, a full disk, another process): the world holds the outcomes of the
  accesses still to come, one for each \<^verbatim>\<open>open\<close> in the order in which the program makes
  them, and past the end of that list every access goes well. An access fails when the
  file is opened, or later, when the text is transferred; a write that fails then has
  already truncated the file, and leaves in it the part of the text that had arrived.

  The program prints; each \<^verbatim>\<open>print\<close> of the source is one constructor of \<open>message\<close>,
  holding the values its f-string interpolates. The trace records, in order, every
  message printed and every access to the file system that was attempted.
\<close>

record text_file =
  decodable :: bool
  data :: str

datatype exn =
    FileNotFoundError str
  | PermissionError str
  | UnicodeDecodeError str
  | OSError str

datatype io_outcome =
    Succeeds
  | Open_fails exn
  | Transfer_fails exn nat

record analysis =
  issue_type :: str
  problem :: str
  solution :: str

datatype message =
    Analyzing_error str str
  | Scanning str
  | Error_reading_file exn
  | Fixing_issues str str
  | Fixes_applied_successfully
  | Error_fixing exn
  | Creating_fallback str
  | Fallback_created
  | Error_creating_fallback exn
  | Starting_diagnosis str
  | Specialty str
  | Experience str
  | Target_not_found str
  | Analysis analysis
  | Found_issues nat
  | Applying_fixes
  | Fallback_applied
  | Fixes_applied
  | All_failed

datatype event =
    Print message
  | Path_exists str
  | Open_read str
  | Open_write str

record world =
  files :: "str \<Rightarrow> text_file option"
  faults :: "io_outcome list"
  trace :: "event list"

definition emit :: "event \<Rightarrow> world \<Rightarrow> world" where
  "emit e w = w\<lparr>trace := trace w @ [e]\<rparr>"

definition print :: "message \<Rightarrow> world \<Rightarrow> world" where
  "print m w = emit (Print m) w"

definition path_exists :: "str \<Rightarrow> world \<Rightarrow> bool \<times> world" where
  "path_exists path w = (files w path \<noteq> None, emit (Path_exists path) w)"

text \<open>The outcome of the access that is made now; the later ones move up.\<close>

definition next_outcome :: "world \<Rightarrow> io_outcome \<times> world" where
  "next_outcome w =
     ((case faults w of [] \<Rightarrow> Succeeds | out # outs \<Rightarrow> out), w\<lparr>faults := tl (faults w)\<rparr>)"

text \<open>
  Text mode reads with universal newlines: \<^verbatim>\<open>\r\n\<close> and a lone \<^verbatim>\<open>\r\<close> come back
  as \<^verbatim>\<open>\n\<close>.
\<close>

fun universal_newlines :: "str \<Rightarrow> str" where
  "universal_newlines [] = []"
| "universal_newlines [c] = (if c = 13 then [newline] else [c])"
| "universal_newlines (c # d # cs) =
     (if c = 13 then
        (if d = newline then newline # universal_newlines cs
         else newline # universal_newlines (d # cs))
      else c # universal_newlines (d # cs))"

text \<open>
  \<^verbatim>\<open>with open(path, 'r', encoding='utf-8') as f: content = f.read()\<close>: the text, or the
  exception raised.
\<close>

definition read_text :: "str \<Rightarrow> world \<Rightarrow> (exn + str) \<times> world" where
  "read_text path w =
     (let (outcome, w') = next_outcome (emit (Open_read path) w) in
      case files w path of
        None \<Rightarrow> (Inl (FileNotFoundError path), w')
      | Some f \<Rightarrow>
          (case outcome of
             Open_fails e \<Rightarrow> (Inl e, w')
           | Transfer_fails e k \<Rightarrow> (Inl e, w')
           | Succeeds \<Rightarrow>
               if \<not> decodable f then (Inl (UnicodeDecodeError path), w')
               else (Inr (universal_newlines (data f)), w')))"

text \<open>
  \<^verbatim>\<open>with open(path, 'w', encoding='utf-8') as f: f.write(content)\<close>. Opening creates
  the file or truncates it; when all goes well the file then holds the text (the line
  separator of the platform being \<^verbatim>\<open>\n\<close>).
\<close>

definition write_text :: "str \<Rightarrow> str \<Rightarrow> world \<Rightarrow> (exn + unit) \<times> world" where
  "write_text path s w =
     (let (outcome, w') = next_outcome (emit (Open_write path) w) in
      case outcome of
        Open_fails e \<Rightarrow> (Inl e, w')
      | Transfer_fails e k \<Rightarrow>
          (Inl e, w'\<lparr>files := (files w)(path \<mapsto> \<lparr>decodable = True, data = take k s\<rparr>)\<rparr>)
      | Succeeds \<Rightarrow>
          (Inr (), w'\<lparr>files := (files w)(path \<mapsto> \<lparr>decodable = True, data = s\<rparr>)\<rparr>))"

section \<open>The agent\<close>

record agent =
  name :: str
  specialty :: str
  experience :: str

definition init :: agent where
  "init = \<lparr>name = lit ''Database Debug Agent'',
            specialty = lit ''SQL Type Casting and Database Query Issues'',
            experience = lit ''15 years of PostgreSQL debugging''\<rparr>"

subsection \<open>\<^verbatim>\<open>analyze_error\<close>\<close>

definition analyze_error :: "agent \<Rightarrow> str \<Rightarrow> world \<Rightarrow> analysis \<times> world" where
  "analyze_error self error_message w =
     (let w1 = print (Analyzing_error (name self) error_message) w in
      if str_contains (lit ''operator does not exist: character varying = integer'')
           error_message
      then (\<lparr>issue_type = lit ''type_casting'',
             problem = lit ''VARCHAR column being compared to INTEGER'',
             solution = lit ''Add explicit type casting or fix parameter types''\<rparr>, w1)
      else (\<lparr>issue_type = lit ''unknown'',
             problem = lit ''Unknown error'',
             solution = lit ''Investigate further''\<rparr>, w1))"

subsection \<open>\<^verbatim>\<open>find_sql_issues\<close>\<close>

record issue_record =
  line :: nat
  content :: str
  issue :: str
  severity :: str

text \<open>\<^verbatim>\<open>r"WHERE.*=.*'[^']*'"\<close>\<close>

definition pat_string_comparison :: regex where
  "pat_string_comparison =
     lits (lit ''WHERE'') @ [Star Dot] @ lits (lit ''='') @
     [Star Dot, One (Chr quote), Star (Not_chr quote), One (Chr quote)]"

text \<open>\<^verbatim>\<open>r"\$[0-9]+"\<close>\<close>

definition pat_parameter :: regex where
  "pat_parameter = lits (lit ''$'') @ [One (Range 48 57), Star (Range 48 57)]"

text \<open>The body of the loop: the records that one line, numbered \<open>i\<close>, adds to \<^verbatim>\<open>issues\<close>.\<close>

definition line_issues :: "(str \<Rightarrow> str) \<Rightarrow> nat \<Rightarrow> str \<Rightarrow> issue_record list" where
  "line_issues upper i ln =
     (if re_search pat_string_comparison ln
      then [\<lparr>line = i, content = strip ln,
             issue = lit ''String literal comparison - check if column is VARCHAR'',
             severity = lit ''medium''\<rparr>]
      else []) @
     (if re_search pat_parameter ln
      then [\<lparr>line = i, content = strip ln,
             issue = lit ''Parameter usage - verify type matches column type'',
             severity = lit ''high''\<rparr>]
      else []) @
     (if str_contains (lit ''UNION'') (upper ln)
      then [\<lparr>line = i, content = strip ln,
             issue = lit
               ''UNION query - ensure all SELECT statements have matching column types'',
             severity = lit ''high''\<rparr>]
      else [])"

text \<open>\<^verbatim>\<open>for i, line in enumerate(lines, 1)\<close>, from line number \<open>i\<close> on.\<close>

fun scan_lines :: "(str \<Rightarrow> str) \<Rightarrow> nat \<Rightarrow> str list \<Rightarrow> issue_record list" where
  "scan_lines upper i [] = []"
| "scan_lines upper i (ln # lns) = line_issues upper i ln @ scan_lines upper (Suc i) lns"

definition find_sql_issues ::
    "(str \<Rightarrow> str) \<Rightarrow> agent \<Rightarrow> str \<Rightarrow> world \<Rightarrow> issue_record list \<times> world" where
  "find_sql_issues upper self file_path w =
     (let w1 = print (Scanning file_path) w in
      case read_text file_path w1 of
        (Inl e, w2) \<Rightarrow> ([], print (Error_reading_file e) w2)
      | (Inr contents, w2) \<Rightarrow> (scan_lines upper 1 (split newline contents), w2))"

subsection \<open>\<^verbatim>\<open>fix_sql_query\<close>\<close>

text \<open>\<^verbatim>\<open>r'\[userId\.toString\(\)\]'\<close>\<close>

definition pat_user_id :: regex where
  "pat_user_id = lits (lit ''[userId.toString()]'')"

text \<open>\<^verbatim>\<open>r"WHERE.*result\s*=\s*'win'"\<close>\<close>

definition pat_where_win :: regex where
  "pat_where_win =
     lits (lit ''WHERE'') @ [Star Dot] @ lits (lit ''result'') @ [Star Space] @
     lits (lit ''='') @ [Star Space] @ lits (quote # lit ''win'' @ [quote])"

text \<open>\<^verbatim>\<open>r'LIMIT \$2'\<close>\<close>

definition pat_limit :: regex where
  "pat_limit = lits (lit ''LIMIT $2'')"

text \<open>\<^verbatim>\<open>r'winnings > 0'\<close>\<close>

definition pat_winnings :: regex where
  "pat_winnings = lits (lit ''winnings > 0'')"

text \<open>The four substitutions, in the order of the source.\<close>

definition fix_sql_text :: "str \<Rightarrow> str" where
  "fix_sql_text contents =
     (let c1 = re_sub pat_user_id (lit ''[userId]'') contents;
          c2 = re_sub pat_where_win (lit ''WHERE result = 'win'::VARCHAR'') c1;
          c3 = re_sub pat_limit (lit ''LIMIT $2::INTEGER'') c2;
          c4 = re_sub pat_winnings (lit ''winnings::NUMERIC > 0'') c3
      in c4)"

definition fix_sql_query :: "agent \<Rightarrow> str \<Rightarrow> world \<Rightarrow> bool \<times> world" where
  "fix_sql_query self file_path w =
     (let w1 = print (Fixing_issues (name self) file_path) w in
      case read_text file_path w1 of
        (Inl e, w2) \<Rightarrow> (False, print (Error_fixing e) w2)
      | (Inr contents, w2) \<Rightarrow>
          (case write_text file_path (fix_sql_text contents) w2 of
             (Inl e, w3) \<Rightarrow> (False, print (Error_fixing e) w3)
           | (Inr u, w3) \<Rightarrow> (True, print Fixes_applied_successfully w3)))"

subsection \<open>\<^verbatim>\<open>create_simple_fallback_query\<close>\<close>

definition fallback_query :: str where
  "fallback_query =
     lit ''\<newline>'' @
     lit ''    // Simple fallback query - just get basic bet information\<newline>'' @
     lit ''    const simpleQuery = `\<newline>'' @
     lit ''      SELECT \<newline>'' @
     lit ''        'bet_activity' as activity_type,\<newline>'' @
     lit ''        'Bet placed' as description,\<newline>'' @
     lit ''        -amount as amount_change,\<newline>'' @
     lit ''        timestamp,\<newline>'' @
     lit ''        'bet' as category\<newline>'' @
     lit ''      FROM bets\<newline>'' @
     lit ''      WHERE user_id = $1\<newline>'' @
     lit ''      ORDER BY timestamp DESC\<newline>'' @
     lit ''      LIMIT $2\<newline>'' @
     lit ''    `;\<newline>'' @
     lit ''    \<newline>'' @
     lit ''    const result = await db.query(simpleQuery, [userId, limit]);\<newline>'' @
     lit ''    ''"

text \<open>\<^verbatim>\<open>r'const bettingQuery = `.*?`;'\<close> with \<^verbatim>\<open>flags=re.DOTALL\<close>\<close>

definition pat_betting_query :: regex where
  "pat_betting_query =
     lits (lit ''const bettingQuery = `'') @ [Lazy_star Any_char] @ lits (lit ''`;'')"

definition fallback_text :: "str \<Rightarrow> str" where
  "fallback_text contents = re_sub pat_betting_query (strip fallback_query) contents"

definition create_simple_fallback_query :: "agent \<Rightarrow> str \<Rightarrow> world \<Rightarrow> bool \<times> world" where
  "create_simple_fallback_query self file_path w =
     (let w1 = print (Creating_fallback file_path) w in
      case read_text file_path w1 of
        (Inl e, w2) \<Rightarrow> (False, print (Error_creating_fallback e) w2)
      | (Inr contents, w2) \<Rightarrow>
          (case write_text file_path (fallback_text contents) w2 of
             (Inl e, w3) \<Rightarrow> (False, print (Error_creating_fallback e) w3)
           | (Inr u, w3) \<Rightarrow> (True, print Fallback_created w3)))"

subsection \<open>\<^verbatim>\<open>run_diagnosis\<close>\<close>

definition target_file :: str where
  "target_file = lit ''controllers/historyController.js''"

definition run_diagnosis :: "(str \<Rightarrow> str) \<Rightarrow> agent \<Rightarrow> world \<Rightarrow> bool \<times> world" where
  "run_diagnosis upper self w0 =
     (let w1 = print (Starting_diagnosis (name self)) w0;
          w2 = print (Specialty (specialty self)) w1;
          w3 = print (Experience (experience self)) w2;
          (found, w4) = path_exists target_file w3
      in if \<not> found then (False, print (Target_not_found target_file) w4)
         else
          (let error_msg = lit ''operator does not exist: character varying = integer'';
               (analysis, w5) = analyze_error self error_msg w4;
               w6 = print (Analysis analysis) w5;
               (issues, w7) = find_sql_issues upper self target_file w6;
               w8 = print (Found_issues (length issues)) w7;
               w9 = print Applying_fixes w8;
               (fallback_ok, w10) = create_simple_fallback_query self target_file w9
           in if fallback_ok then (True, print Fallback_applied w10)
              else
               (let (fix_ok, w11) = fix_sql_query self target_file w10
                in if fix_ok then (True, print Fixes_applied w11)
                   else (False, print All_failed w11))))"

section \<open>Notions used to state the properties\<close>

text \<open>The error text that \<^verbatim>\<open>analyze_error\<close> looks for, and its two possible results.\<close>

definition known_error :: str where
  "known_error = lit ''operator does not exist: character varying = integer''"

definition type_casting_analysis :: analysis where
  "type_casting_analysis =
     \<lparr>issue_type = lit ''type_casting'',
      problem = lit ''VARCHAR column being compared to INTEGER'',
      solution = lit ''Add explicit type casting or fix parameter types''\<rparr>"

definition unknown_analysis :: analysis where
  "unknown_analysis =
     \<lparr>issue_type = lit ''unknown'',
      problem = lit ''Unknown error'',
      solution = lit ''Investigate further''\<rparr>"

text \<open>
  A world with no file, a world whose only file is an ordinary one, and a world in which
  the coming accesses have the given outcomes.
\<close>

definition no_files :: world where
  "no_files = \<lparr>files = (\<lambda>p. None), faults = [], trace = []\<rparr>"

definition one_file :: "str \<Rightarrow> str \<Rightarrow> world" where
  "one_file path contents =
     \<lparr>files = (\<lambda>p. if p = path then Some \<lparr>decodable = True, data = contents\<rparr> else None),
      faults = [],
      trace = []\<rparr>"

definition with_outcomes :: "io_outcome list \<Rightarrow> world \<Rightarrow> world" where
  "with_outcomes outs w = w\<lparr>faults := outs\<rparr>"

text \<open>The next \<open>n\<close> accesses to the file system go well.\<close>

definition sound_io :: "nat \<Rightarrow> world \<Rightarrow> bool" where
  "sound_io n w = list_all (\<lambda>out. out = Succeeds) (take n (faults w))"

text \<open>The three issue texts of \<^verbatim>\<open>find_sql_issues\<close>; each names the check that made the record.\<close>

definition issue_string_comparison :: str where
  "issue_string_comparison = lit ''String literal comparison - check if column is VARCHAR''"
definition issue_parameter :: str where
  "issue_parameter = lit ''Parameter usage - verify type matches column type''"
definition issue_union :: str where
  "issue_union = lit ''UNION query - ensure all SELECT statements have matching column types''"

text \<open>
  The place of a record's check in the loop body (string comparison, parameter, UNION), and
  the order of two records: an earlier line, or the same line and an earlier check.
\<close>

definition pattern_rank :: "issue_record \<Rightarrow> nat" where
  "pattern_rank r =
     (if issue r = issue_string_comparison then 0
      else if issue r = issue_parameter then 1 else 2)"

definition precedes :: "issue_record \<Rightarrow> issue_record \<Rightarrow> bool" where
  "precedes a b \<longleftrightarrow> line a < line b \<or> (line a = line b \<and> pattern_rank a < pattern_rank b)"

text \<open>A sample file for evaluating the scan.\<close>

definition sample_source :: str where
  "sample_source = lit ''  WHERE a = 'x' AND b = $1 union\<newline>foo\<newline>LIMIT $12''"

definition sample_world :: world where
  "sample_world = one_file (lit ''a.js'') sample_source"

text \<open>
  The world in which \<^verbatim>\<open>run_diagnosis\<close> starts its third step, when the target file
  exists: the statements of the source up to \<^verbatim>\<open>print("Applying fixes...")\<close>.
\<close>

definition before_fixes :: "(str \<Rightarrow> str) \<Rightarrow> agent \<Rightarrow> world \<Rightarrow> world" where
  "before_fixes upper self w0 =
     (let w1 = print (Starting_diagnosis (name self)) w0;
          w2 = print (Specialty (specialty self)) w1;
          w3 = print (Experience (experience self)) w2;
          (found, w4) = path_exists target_file w3;
          error_msg = lit ''operator does not exist: character varying = integer'';
          (analysis, w5) = analyze_error self error_msg w4;
          w6 = print (Analysis analysis) w5;
          (issues, w7) = find_sql_issues upper self target_file w6;
          w8 = print (Found_issues (length issues)) w7
      in print Applying_fixes w8)"

text \<open>A file with no query block.\<close>

definition plain_source :: str where
  "plain_source = lit ''const total = 1;\<newline>''"

text \<open>What a read returns depends on the file and on the outcome of this access alone.\<close>

definition read_result :: "str \<Rightarrow> world \<Rightarrow> exn + str" where
  "read_result p w =
     (case files w p of
        None \<Rightarrow> Inl (FileNotFoundError p)
      | Some f \<Rightarrow>
          (case faults w of
             Open_fails e # outs \<Rightarrow> Inl e
           | Transfer_fails e k # outs \<Rightarrow> Inl e
           | _ \<Rightarrow>
               if \<not> decodable f then Inl (UnicodeDecodeError p)
               else Inr (universal_newlines (data f))))"

text \<open>A file with no query block whose lines end in \<^verbatim>\<open>\r\n\<close>.\<close>

definition crlf_source :: str where
  "crlf_source = lit ''a'' @ [13, 10] @ lit ''b''"

text \<open>
  Two worlds in which the target file is the plain one. In the first the fallback cannot
  open the file for reading and every later access goes well; in the second the fallback
  fails while it writes and the fixes cannot open the file.
\<close>

definition recovering_world :: world where
  "recovering_world =
     with_outcomes [Succeeds, Open_fails (PermissionError target_file)]
       (one_file target_file plain_source)"

definition failing_world :: world where
  "failing_world =
     with_outcomes [Succeeds, Succeeds, Transfer_fails (OSError target_file) 0,
                    Open_fails (PermissionError target_file)]
       (one_file target_file plain_source)"

text \<open>A file with the string comparison that the second substitution looks for.\<close>

definition win_source :: str where
  "win_source =
     lit ''SELECT * FROM bets\<newline>WHERE result = 'win'' @ quote # lit ''\<newline>LIMIT $2''"

section \<open>Facts about texts and the regular expression functions\<close>

declare re_sub.simps [simp del]

lemma str_contains_sublist: "str_contains p s \<longleftrightarrow> sublist p s"
  by (induction s) (auto simp: sublist_Cons_right)

lemma str_contains_iff: "str_contains p s \<longleftrightarrow> (\<exists>a b. s = a @ p @ b)"
  by (simp add: str_contains_sublist sublist_def)

lemma split_not_Nil: "split sep s \<noteq> []"
  by (induction s) (auto split: list.splits)

lemma re_sub_None:
  "re_match r (x # xs) = None \<Longrightarrow> re_sub r repl (x # xs) = x # re_sub r repl xs"
  by (subst re_sub.simps) simp

lemma re_sub_Nil_None: "re_match r [] = None \<Longrightarrow> re_sub r repl [] = []"
  by (subst re_sub.simps) simp

lemma re_sub_Some:
  "re_match r s = Some t \<Longrightarrow> length t < length s \<Longrightarrow>
   re_sub r repl s = repl @ re_sub r repl t"
  by (subst re_sub.simps) simp

text \<open>Where the pattern matches nowhere, the substitution changes nothing.\<close>

lemma re_sub_no_match: "\<not> re_search r s \<Longrightarrow> re_sub r repl s = s"
  by (induction s) (simp_all add: re_sub_None re_sub_Nil_None)

lemma re_match_lits: "re_match (lits p @ r) (p @ s) = re_match r s"
  by (induction p) (simp_all add: lits_def)

lemma re_match_lits_prefix: "re_match (lits p @ r) s = Some t \<Longrightarrow> prefix p s"
proof (induction p arbitrary: s)
  case Nil
  then show ?case by simp
next
  case (Cons c p)
  then show ?case by (cases s) (auto simp: lits_def split: if_splits)
qed

lemma re_match_lits_only: "re_match (lits p) s = Some t \<longleftrightarrow> s = p @ t"
proof
  assume h: "re_match (lits p) s = Some t"
  then have "re_match (lits p @ []) s = Some t" by simp
  then have "prefix p s" by (rule re_match_lits_prefix)
  then obtain u where u: "s = p @ u" by (auto simp: prefix_def)
  with h have "re_match (lits p @ []) (p @ u) = Some t" by simp
  then have "u = t" by (simp only: re_match_lits re_match.simps) simp
  with u show "s = p @ t" by simp
next
  assume "s = p @ t"
  then have "re_match (lits p @ []) s = Some t" by (simp only: re_match_lits re_match.simps)
  then show "re_match (lits p) s = Some t" by simp
qed

lemma re_search_append: "re_match r s \<noteq> None \<Longrightarrow> re_search r (a @ s)"
proof (induction a)
  case Nil
  then show ?case by (cases s) simp_all
next
  case (Cons x a)
  then show ?case by simp
qed

text \<open>Where the pattern matches somewhere, the result holds the replacement.\<close>

lemma re_search_sub_contains: "re_search r s \<Longrightarrow> sublist repl (re_sub r repl s)"
proof (induction s)
  case Nil
  then obtain t where "re_match r [] = Some t" by auto
  then show ?case by (subst re_sub.simps) simp
next
  case (Cons x xs)
  show ?case
  proof (cases "re_match r (x # xs)")
    case None
    with Cons have "sublist repl (re_sub r repl xs)" by simp
    then have "sublist repl (x # re_sub r repl xs)" by (simp add: sublist_Cons_right)
    with None show ?thesis by (simp add: re_sub_None)
  next
    case (Some t)
    then show ?thesis by (subst re_sub.simps) (simp add: sublist_append)
  qed
qed

section \<open>\<^verbatim>\<open>analyze_error\<close>\<close>

text \<open>
  C1, as the specification states it: the exact known error text gives the fixed record
  and every other text gives the ``unknown'' record. The source tests with \<^verbatim>\<open>in\<close>, so a
  longer text that holds the known one is not ``unknown'': a text other than the known one
  whose result is the type-casting record.
\<close>

theorem analyze_error_other_text_counterexample:
  "lit ''ERROR: operator does not exist: character varying = integer'' \<noteq> known_error \<and>
   fst (analyze_error init
          (lit ''ERROR: operator does not exist: character varying = integer'') no_files)
     = type_casting_analysis"
  by (simp add: analyze_error_def Let_def lit_def known_error_def type_casting_analysis_def)

text \<open>
  C1, amended: the record returned depends on the error text alone; it is the type-casting
  record for every text that holds the known error text (the exact text among them) and the
  ``unknown'' record for every text that does not; the call prints one line and changes
  nothing else.
\<close>

theorem analyze_error_by_containment:
  "((\<exists>a b. s = a @ known_error @ b) \<longrightarrow>
      fst (analyze_error self s w) = type_casting_analysis) \<and>
   ((\<nexists>a b. s = a @ known_error @ b) \<longrightarrow>
      fst (analyze_error self s w) = unknown_analysis) \<and>
   snd (analyze_error self s w) =
      w\<lparr>trace := trace w @ [Print (Analyzing_error (name self) s)]\<rparr>"
  unfolding analyze_error_def Let_def str_contains_iff print_def emit_def
    known_error_def type_casting_analysis_def unknown_analysis_def
  by simp

theorem analyze_error_by_containment_witness:
  "fst (analyze_error init known_error no_files) = type_casting_analysis \<and>
   fst (analyze_error init (lit ''syntax error'') no_files) = unknown_analysis"
proof -
  have yes: "\<exists>a b. known_error = a @ known_error @ b"
    by (rule exI [of _ "[]"], rule exI [of _ "[]"]) simp
  have "\<not> str_contains known_error (lit ''syntax error'')"
    by (simp add: known_error_def lit_def)
  then have no: "\<nexists>a b. lit ''syntax error'' = a @ known_error @ b"
    by (simp add: str_contains_iff)
  from yes no
    analyze_error_by_containment [of known_error init no_files]
    analyze_error_by_containment [of "lit ''syntax error''" init no_files]
  show ?thesis by blast
qed

section \<open>Reading, writing and the trace\<close>

lemma files_emit [simp]: "files (emit e w) = files w"
  by (simp add: emit_def)

lemma faults_emit [simp]: "faults (emit e w) = faults w"
  by (simp add: emit_def)

lemma trace_emit [simp]: "trace (emit e w) = trace w @ [e]"
  by (simp add: emit_def)

lemma files_print [simp]: "files (print m w) = files w"
  by (simp add: print_def)

lemma faults_print [simp]: "faults (print m w) = faults w"
  by (simp add: print_def)

lemma trace_print [simp]: "trace (print m w) = trace w @ [Print m]"
  by (simp add: print_def)

lemma sound_io_print [simp]: "sound_io n (print m w) = sound_io n w"
  by (simp add: sound_io_def)

lemma read_text_cases:
  "read_text p w = (read_result p w, (emit (Open_read p) w)\<lparr>faults := tl (faults w)\<rparr>)"
  by (simp add: read_text_def read_result_def next_outcome_def Let_def
      split: option.splits list.splits io_outcome.splits)

lemma read_result_emit [simp]: "read_result p (emit e w) = read_result p w"
  by (simp add: read_result_def split: option.splits)

lemma read_result_print [simp]: "read_result p (print m w) = read_result p w"
  by (simp add: print_def)

lemma fst_read_text_emit [simp]: "fst (read_text p (emit e w)) = fst (read_text p w)"
  by (simp add: read_text_cases)

lemma read_result_sound:
  assumes "files w p = Some f" and "decodable f" and "sound_io (Suc n) w"
  shows "read_result p w = Inr (universal_newlines (data f))"
proof (cases "faults w")
  case Nil
  with assms show ?thesis by (simp add: read_result_def)
next
  case (Cons out outs)
  with assms(3) have "out = Succeeds" by (simp add: sound_io_def)
  with Cons assms(1,2) show ?thesis by (simp add: read_result_def)
qed

lemma sound_io_tl: "sound_io (Suc n) w \<Longrightarrow> sound_io n (w\<lparr>faults := tl (faults w)\<rparr>)"
  by (cases "faults w") (simp_all add: sound_io_def)

section \<open>\<^verbatim>\<open>find_sql_issues\<close>\<close>

lemma find_sql_issues_fst:
  "fst (find_sql_issues upper self p w) =
     (case fst (read_text p w) of
        Inl e \<Rightarrow> []
      | Inr contents \<Rightarrow> scan_lines upper 1 (split newline contents))"
proof -
  obtain v w' where rd: "read_text p (print (Scanning p) w) = (v, w')"
    by (cases "read_text p (print (Scanning p) w)")
  have "fst (read_text p (print (Scanning p) w)) = fst (read_text p w)"
    by (simp add: print_def)
  with rd have v: "fst (read_text p w) = v" by simp
  show ?thesis
    by (cases v) (simp_all add: find_sql_issues_def Let_def rd v)
qed

lemma length_line_issues: "length (line_issues upper i ln) \<le> 3"
  by (simp add: line_issues_def)

lemma length_scan_lines: "length (scan_lines upper i lns) \<le> 3 * length lns"
proof (induction lns arbitrary: i)
  case Nil
  then show ?case by simp
next
  case (Cons ln lns)
  have "length (line_issues upper i ln) \<le> 3" by (rule length_line_issues)
  moreover have "length (scan_lines upper (Suc i) lns) \<le> 3 * length lns" by (rule Cons.IH)
  ultimately show ?case by simp
qed

text \<open>
  C4: \<^verbatim>\<open>find_sql_issues\<close> returns a list in every world. When the file cannot be read
  (missing, unreadable, not UTF-8) the exception is caught and the list is empty; when it is
  read, the list has at most three records for each line of the text read.
\<close>

theorem find_sql_issues_bounded:
  "(case fst (read_text file_path w) of
      Inl e \<Rightarrow> fst (find_sql_issues upper self file_path w) = []
    | Inr contents \<Rightarrow>
        length (fst (find_sql_issues upper self file_path w))
          \<le> 3 * length (split newline contents))"
  by (simp add: find_sql_issues_fst length_scan_lines split: sum.splits)

lemma read_one_file:
  "fst (read_text p (one_file p c)) = Inr (universal_newlines c)"
  by (simp add: read_text_cases read_result_def one_file_def)

lemma sample_lines: "split newline (universal_newlines sample_source) =
   [lit ''  WHERE a = 'x' AND b = $1 union'', lit ''foo'', lit ''LIMIT $12'']"
  by (simp add: sample_source_def lit_def newline_def)

lemma sample_scan:
  "map (\<lambda>r. (line r, issue r, severity r))
     (fst (find_sql_issues ascii_upper init (lit ''a.js'') (one_file (lit ''a.js'') sample_source)))
   = [(1, issue_string_comparison, lit ''medium''), (1, issue_parameter, lit ''high''),
      (1, issue_union, lit ''high''), (3, issue_parameter, lit ''high'')]"
  apply (simp add: find_sql_issues_fst read_one_file sample_lines)
  apply (simp add: line_issues_def pat_string_comparison_def pat_parameter_def lits_def
      lit_def quote_def newline_def ascii_upper_def issue_string_comparison_def
      issue_parameter_def issue_union_def)
  done

theorem find_sql_issues_bounded_witness:
  "length (fst (find_sql_issues ascii_upper init (lit ''a.js'') (one_file (lit ''a.js'') sample_source))) = 4
   \<and> 4 \<le> 3 * length (split newline (universal_newlines sample_source))"
proof -
  have "length (map (\<lambda>r. (line r, issue r, severity r))
     (fst (find_sql_issues ascii_upper init (lit ''a.js'') (one_file (lit ''a.js'') sample_source)))) = 4"
    by (simp only: sample_scan) simp
  then have n: "length (fst (find_sql_issues ascii_upper init (lit ''a.js'')
      (one_file (lit ''a.js'') sample_source))) = 4" by simp
  from find_sql_issues_bounded [where file_path = "lit ''a.js''" and upper = ascii_upper
      and self = init and w = "one_file (lit ''a.js'') sample_source"]
  have "length (fst (find_sql_issues ascii_upper init (lit ''a.js'') (one_file (lit ''a.js'') sample_source)))
      \<le> 3 * length (split newline (universal_newlines sample_source))"
    by (simp add: read_one_file)
  with n show ?thesis by simp
qed

lemma line_issues_cases:
  assumes "r \<in> set (line_issues upper i ln)"
  shows "line r = i \<and>
    ((issue r = issue_string_comparison \<and> severity r = lit ''medium'' \<and>
        re_search pat_string_comparison ln) \<or>
     (issue r = issue_parameter \<and> severity r = lit ''high'' \<and> re_search pat_parameter ln) \<or>
     (issue r = issue_union \<and> severity r = lit ''high'' \<and>
        str_contains (lit ''UNION'') (upper ln)))"
  using assms
  by (auto simp: line_issues_def issue_string_comparison_def issue_parameter_def
      issue_union_def split: if_splits)

lemma scan_lines_cases:
  "r \<in> set (scan_lines upper i lns) \<Longrightarrow>
   \<exists>ln \<in> set lns.
    ((issue r = issue_string_comparison \<and> severity r = lit ''medium'' \<and>
        re_search pat_string_comparison ln) \<or>
     (issue r = issue_parameter \<and> severity r = lit ''high'' \<and> re_search pat_parameter ln) \<or>
     (issue r = issue_union \<and> severity r = lit ''high'' \<and>
        str_contains (lit ''UNION'') (upper ln)))"
proof (induction lns arbitrary: i)
  case Nil
  then show ?case by simp
next
  case (Cons ln lns)
  from Cons.prems have "r \<in> set (line_issues upper i ln) \<or> r \<in> set (scan_lines upper (Suc i) lns)"
    by simp
  then show ?case
  proof
    assume "r \<in> set (line_issues upper i ln)"
    from line_issues_cases [OF this] show ?thesis by simp
  next
    assume "r \<in> set (scan_lines upper (Suc i) lns)"
    from Cons.IH [OF this] show ?thesis by auto
  qed
qed

lemma medium_high_low: "lit ''medium'' \<noteq> lit ''low'' \<and> lit ''high'' \<noteq> lit ''low''"
  by (simp add: lit_def)

text \<open>
  C9: every record returned has severity \<^verbatim>\<open>medium\<close> and comes from a line that the
  string-comparison pattern matches, or has severity \<^verbatim>\<open>high\<close> and comes from a line
  that the parameter pattern matches or whose upper-cased text holds \<^verbatim>\<open>UNION\<close>;
  severity \<^verbatim>\<open>low\<close> never occurs.
\<close>

theorem find_sql_issues_severity:
  "\<forall>r \<in> set (fst (find_sql_issues upper self file_path w)).
     severity r \<noteq> lit ''low'' \<and>
     (\<exists>contents. fst (read_text file_path w) = Inr contents \<and>
        (\<exists>ln \<in> set (split newline contents).
          (issue r = issue_string_comparison \<and> severity r = lit ''medium'' \<and>
             re_search pat_string_comparison ln) \<or>
          (issue r = issue_parameter \<and> severity r = lit ''high'' \<and>
             re_search pat_parameter ln) \<or>
          (issue r = issue_union \<and> severity r = lit ''high'' \<and>
             str_contains (lit ''UNION'') (upper ln))))"
proof
  fix r
  assume r: "r \<in> set (fst (find_sql_issues upper self file_path w))"
  then obtain contents where rd: "fst (read_text file_path w) = Inr contents"
    and mem: "r \<in> set (scan_lines upper 1 (split newline contents))"
    by (cases "fst (read_text file_path w)") (auto simp: find_sql_issues_fst)
  from scan_lines_cases [OF mem] obtain ln where ln: "ln \<in> set (split newline contents)"
    and c: "(issue r = issue_string_comparison \<and> severity r = lit ''medium'' \<and>
             re_search pat_string_comparison ln) \<or>
          (issue r = issue_parameter \<and> severity r = lit ''high'' \<and>
             re_search pat_parameter ln) \<or>
          (issue r = issue_union \<and> severity r = lit ''high'' \<and>
             str_contains (lit ''UNION'') (upper ln))"
    by blast
  from c medium_high_low have "severity r \<noteq> lit ''low''" by auto
  with rd ln c show "severity r \<noteq> lit ''low'' \<and>
     (\<exists>contents. fst (read_text file_path w) = Inr contents \<and>
        (\<exists>ln \<in> set (split newline contents).
          (issue r = issue_string_comparison \<and> severity r = lit ''medium'' \<and>
             re_search pat_string_comparison ln) \<or>
          (issue r = issue_parameter \<and> severity r = lit ''high'' \<and>
             re_search pat_parameter ln) \<or>
          (issue r = issue_union \<and> severity r = lit ''high'' \<and>
             str_contains (lit ''UNION'') (upper ln))))"
    by blast
qed

lemma scan_lines_line_ge: "r \<in> set (scan_lines upper i lns) \<Longrightarrow> i \<le> line r"
proof (induction lns arbitrary: i)
  case Nil
  then show ?case by simp
next
  case (Cons ln lns)
  from Cons.prems have "r \<in> set (line_issues upper i ln) \<or> r \<in> set (scan_lines upper (Suc i) lns)"
    by simp
  then show ?case
  proof
    assume "r \<in> set (line_issues upper i ln)"
    from line_issues_cases [OF this] show ?thesis by simp
  next
    assume "r \<in> set (scan_lines upper (Suc i) lns)"
    from Cons.IH [OF this] show ?thesis by simp
  qed
qed

lemma issue_texts_distinct:
  "issue_string_comparison \<noteq> issue_parameter \<and> issue_string_comparison \<noteq> issue_union \<and>
   issue_parameter \<noteq> issue_union"
  by (simp add: issue_string_comparison_def issue_parameter_def issue_union_def lit_def)

lemma sorted_line_issues: "sorted_wrt precedes (line_issues upper i ln)"
  by (simp add: line_issues_def precedes_def pattern_rank_def issue_string_comparison_def
      issue_parameter_def issue_union_def lit_def)

lemma sorted_scan_lines: "sorted_wrt precedes (scan_lines upper i lns)"
proof (induction lns arbitrary: i)
  case Nil
  then show ?case by simp
next
  case (Cons ln lns)
  have "precedes a b" if a: "a \<in> set (line_issues upper i ln)"
    and b: "b \<in> set (scan_lines upper (Suc i) lns)" for a b
  proof -
    from line_issues_cases [OF a] have "line a = i" by simp
    moreover from scan_lines_line_ge [OF b] have "Suc i \<le> line b" .
    ultimately show ?thesis by (simp add: precedes_def)
  qed
  with Cons.IH [of "Suc i"] sorted_line_issues [of upper i ln]
  show ?case by (simp add: sorted_wrt_append)
qed

text \<open>
  C10: the records are in the order of their line numbers, which never decrease, and
  records of the same line are in the order of the checks: string comparison, then
  parameter, then UNION.
\<close>

theorem find_sql_issues_ordered:
  "sorted_wrt precedes (fst (find_sql_issues upper self file_path w)) \<and>
   sorted (map line (fst (find_sql_issues upper self file_path w)))"
proof -
  have s: "sorted_wrt precedes (fst (find_sql_issues upper self file_path w))"
    by (simp add: find_sql_issues_fst sorted_scan_lines split: sum.splits)
  have "sorted_wrt (\<lambda>a b. line a \<le> line b) (fst (find_sql_issues upper self file_path w))"
    by (rule sorted_wrt_mono_rel [OF _ s]) (auto simp: precedes_def)
  then have "sorted (map line (fst (find_sql_issues upper self file_path w)))"
    by (simp add: sorted_wrt_map)
  with s show ?thesis by simp
qed

lemma sample_issues:
  "fst (find_sql_issues ascii_upper init (lit ''a.js'') sample_world) =
    [\<lparr>line = 1, content = lit ''WHERE a = 'x' AND b = $1 union'',
       issue = issue_string_comparison, severity = lit ''medium''\<rparr>,
     \<lparr>line = 1, content = lit ''WHERE a = 'x' AND b = $1 union'',
       issue = issue_parameter, severity = lit ''high''\<rparr>,
     \<lparr>line = 1, content = lit ''WHERE a = 'x' AND b = $1 union'',
       issue = issue_union, severity = lit ''high''\<rparr>,
     \<lparr>line = 3, content = lit ''LIMIT $12'',
       issue = issue_parameter, severity = lit ''high''\<rparr>]"
  apply (simp add: find_sql_issues_fst read_one_file sample_lines sample_world_def)
  apply (simp add: line_issues_def pat_string_comparison_def pat_parameter_def lits_def
      lit_def quote_def newline_def ascii_upper_def issue_string_comparison_def
      issue_parameter_def issue_union_def strip_def is_space_def)
  done

theorem find_sql_issues_severity_witness:
  "map severity (fst (find_sql_issues ascii_upper init (lit ''a.js'') sample_world)) =
     [lit ''medium'', lit ''high'', lit ''high'', lit ''high''] \<and>
   severity (hd (fst (find_sql_issues ascii_upper init (lit ''a.js'') sample_world)))
     \<noteq> lit ''low''"
proof -
  have "hd (fst (find_sql_issues ascii_upper init (lit ''a.js'') sample_world))
      \<in> set (fst (find_sql_issues ascii_upper init (lit ''a.js'') sample_world))"
    by (simp add: sample_issues)
  with find_sql_issues_severity [where upper = ascii_upper and self = init
      and file_path = "lit ''a.js''" and w = sample_world]
  have "severity (hd (fst (find_sql_issues ascii_upper init (lit ''a.js'') sample_world)))
     \<noteq> lit ''low''"
    by blast
  then show ?thesis by (simp add: sample_issues)
qed

theorem find_sql_issues_ordered_witness:
  "map line (fst (find_sql_issues ascii_upper init (lit ''a.js'') sample_world)) = [1, 1, 1, 3] \<and>
   map pattern_rank (fst (find_sql_issues ascii_upper init (lit ''a.js'') sample_world))
     = [0, 1, 2, 1] \<and>
   sorted_wrt precedes (fst (find_sql_issues ascii_upper init (lit ''a.js'') sample_world))"
proof -
  have "map pattern_rank (fst (find_sql_issues ascii_upper init (lit ''a.js'') sample_world))
     = [0, 1, 2, 1]"
      using issue_texts_distinct by (auto simp: sample_issues pattern_rank_def)
  with find_sql_issues_ordered [where upper = ascii_upper and self = init
      and file_path = "lit ''a.js''" and w = sample_world]
  show ?thesis by (simp add: sample_issues)
qed

section \<open>\<^verbatim>\<open>create_simple_fallback_query\<close> on a file with no query block\<close>

lemma write_text_cases:
  "write_text p s w =
     (case faults w of
        Open_fails e # outs \<Rightarrow> (Inl e, (emit (Open_write p) w)\<lparr>faults := outs\<rparr>)
      | Transfer_fails e k # outs \<Rightarrow>
          (Inl e, (emit (Open_write p) w)\<lparr>
             files := (files w)(p \<mapsto> \<lparr>decodable = True, data = take k s\<rparr>),
             faults := outs\<rparr>)
      | _ \<Rightarrow>
          (Inr (), (emit (Open_write p) w)\<lparr>
             files := (files w)(p \<mapsto> \<lparr>decodable = True, data = s\<rparr>),
             faults := tl (faults w)\<rparr>))"
  by (simp add: write_text_def next_outcome_def Let_def emit_def
      split: list.splits io_outcome.splits)

lemma write_text_ok:
  assumes "list_all (\<lambda>out. out = Succeeds) (take (Suc 0) (faults w))"
  shows "write_text p s w =
     (Inr (), (emit (Open_write p) w)\<lparr>
        files := (files w)(p \<mapsto> \<lparr>decodable = True, data = s\<rparr>),
        faults := tl (faults w)\<rparr>)"
  using assms by (cases "faults w") (auto simp: write_text_cases)

lemma sound_io_2_tl:
  "sound_io 2 w \<Longrightarrow> list_all (\<lambda>out. out = Succeeds) (take (Suc 0) (tl (faults w)))"
  by (cases "faults w") (simp_all add: sound_io_def numeral_2_eq_2)

lemma fallback_ok_result:
  assumes "files w p = Some f" and "decodable f" and "sound_io 2 w"
  shows "create_simple_fallback_query self p w =
     (True, w\<lparr>files := (files w)(p \<mapsto>
                \<lparr>decodable = True, data = fallback_text (universal_newlines (data f))\<rparr>),
             faults := drop 2 (faults w),
             trace := trace w @ [Print (Creating_fallback p), Open_read p, Open_write p,
                                Print Fallback_created]\<rparr>)"
proof -
  let ?w2 = "(emit (Open_read p) (print (Creating_fallback p) w))\<lparr>faults := tl (faults w)\<rparr>"
  from assms(3) have "sound_io (Suc 1) w" by (simp add: numeral_2_eq_2)
  with assms(1,2) have rd: "read_result p w = Inr (universal_newlines (data f))"
    by (rule read_result_sound)
  have d: "drop 2 (faults w) = tl (tl (faults w))"
    by (simp add: numeral_2_eq_2 drop_Suc drop_tl)
  from assms(3) have "list_all (\<lambda>out. out = Succeeds) (take (Suc 0) (faults ?w2))"
    by (simp add: sound_io_2_tl)
  then have wr: "write_text p (fallback_text (universal_newlines (data f))) ?w2 =
     (Inr (), (emit (Open_write p) ?w2)\<lparr>
        files := (files ?w2)(p \<mapsto>
           \<lparr>decodable = True, data = fallback_text (universal_newlines (data f))\<rparr>),
        faults := tl (faults ?w2)\<rparr>)"
    by (rule write_text_ok)
  have "create_simple_fallback_query self p w =
     (True, print Fallback_created ((emit (Open_write p) ?w2)\<lparr>
        files := (files ?w2)(p \<mapsto>
           \<lparr>decodable = True, data = fallback_text (universal_newlines (data f))\<rparr>),
        faults := tl (faults ?w2)\<rparr>))"
    by (simp add: create_simple_fallback_query_def Let_def read_text_cases rd wr)
  then show ?thesis by (simp add: print_def emit_def d)
qed

lemma fix_ok_result:
  assumes "files w p = Some f" and "decodable f" and "sound_io 2 w"
  shows "fix_sql_query self p w =
     (True, w\<lparr>files := (files w)(p \<mapsto>
                \<lparr>decodable = True, data = fix_sql_text (universal_newlines (data f))\<rparr>),
             faults := drop 2 (faults w),
             trace := trace w @ [Print (Fixing_issues (name self) p), Open_read p,
                                Open_write p, Print Fixes_applied_successfully]\<rparr>)"
proof -
  let ?w2 = "(emit (Open_read p) (print (Fixing_issues (name self) p) w))\<lparr>
      faults := tl (faults w)\<rparr>"
  from assms(3) have "sound_io (Suc 1) w" by (simp add: numeral_2_eq_2)
  with assms(1,2) have rd: "read_result p w = Inr (universal_newlines (data f))"
    by (rule read_result_sound)
  have d: "drop 2 (faults w) = tl (tl (faults w))"
    by (simp add: numeral_2_eq_2 drop_Suc drop_tl)
  from assms(3) have "list_all (\<lambda>out. out = Succeeds) (take (Suc 0) (faults ?w2))"
    by (simp add: sound_io_2_tl)
  then have wr: "write_text p (fix_sql_text (universal_newlines (data f))) ?w2 =
     (Inr (), (emit (Open_write p) ?w2)\<lparr>
        files := (files ?w2)(p \<mapsto>
           \<lparr>decodable = True, data = fix_sql_text (universal_newlines (data f))\<rparr>),
        faults := tl (faults ?w2)\<rparr>)"
    by (rule write_text_ok)
  have "fix_sql_query self p w =
     (True, print Fixes_applied_successfully ((emit (Open_write p) ?w2)\<lparr>
        files := (files ?w2)(p \<mapsto>
           \<lparr>decodable = True, data = fix_sql_text (universal_newlines (data f))\<rparr>),
        faults := tl (faults ?w2)\<rparr>))"
    by (simp add: fix_sql_query_def Let_def read_text_cases rd wr)
  then show ?thesis by (simp add: print_def emit_def d)
qed

lemma universal_newlines_no_cr: "13 \<notin> set s \<Longrightarrow> universal_newlines s = s"
  by (induction s rule: universal_newlines.induct) auto

text \<open>
  C5, amended: when the file is read and written without an exception and no part of the
  text read matches the pattern of the query block, \<^verbatim>\<open>create_simple_fallback_query\<close>
  returns \<^verbatim>\<open>True\<close>, the write is performed, and the text written is the text that was
  read, which is the text of the file with every \<^verbatim>\<open>\r\n\<close> and lone \<^verbatim>\<open>\r\<close> turned
  into \<^verbatim>\<open>\n\<close>. The file is left as it was when it holds no \<^verbatim>\<open>\r\<close>.
\<close>

theorem fallback_without_block:
  assumes "files w p = Some f" and "decodable f" and "sound_io 2 w"
    and "\<not> re_search pat_betting_query (universal_newlines (data f))"
  shows "fst (read_text p w) = Inr (universal_newlines (data f)) \<and>
     create_simple_fallback_query self p w =
       (True, w\<lparr>files := (files w)(p \<mapsto>
                  \<lparr>decodable = True, data = universal_newlines (data f)\<rparr>),
               faults := drop 2 (faults w),
               trace := trace w @ [Print (Creating_fallback p), Open_read p, Open_write p,
                                  Print Fallback_created]\<rparr>) \<and>
     (13 \<notin> set (data f) \<longrightarrow>
        files (snd (create_simple_fallback_query self p w)) p = Some f)"
proof -
  from assms(4) have n: "fallback_text (universal_newlines (data f)) = universal_newlines (data f)"
    by (simp add: fallback_text_def re_sub_no_match)
  from assms(3) have "sound_io (Suc 1) w" by (simp add: numeral_2_eq_2)
  with assms(1,2) have rd: "read_result p w = Inr (universal_newlines (data f))"
    by (rule read_result_sound)
  note r = fallback_ok_result [OF assms(1-3), of self, unfolded n]
  have "files (snd (create_simple_fallback_query self p w)) p = Some f"
    if "13 \<notin> set (data f)"
  proof -
    from that have "universal_newlines (data f) = data f" by (rule universal_newlines_no_cr)
    moreover from assms(2) have "\<lparr>decodable = True, data = data f\<rparr> = f" by (cases f) simp
    ultimately show ?thesis by (simp add: r)
  qed
  with r rd show ?thesis by (simp add: read_text_cases)
qed

text \<open>
  C5, as the specification states it: the content is left byte for byte identical. A file
  whose lines end in \<^verbatim>\<open>\r\n\<close> is read with universal newlines and written back with
  \<^verbatim>\<open>\n\<close>.
\<close>

theorem fallback_rewrites_newlines_counterexample:
  "\<not> re_search pat_betting_query (universal_newlines crlf_source) \<and>
   fst (create_simple_fallback_query init target_file (one_file target_file crlf_source)) = True \<and>
   map_option data (files (one_file target_file crlf_source) target_file) =
     Some (lit ''a'' @ [13, 10] @ lit ''b'') \<and>
   map_option data
     (files (snd (create_simple_fallback_query init target_file
        (one_file target_file crlf_source))) target_file) = Some (lit ''a'' @ [10] @ lit ''b'') \<and>
   lit ''a'' @ [13, 10] @ lit ''b'' \<noteq> lit ''a'' @ [10] @ lit ''b''"
proof -
  let ?f = "\<lparr>decodable = True, data = crlf_source\<rparr>"
  have u: "universal_newlines crlf_source = lit ''a'' @ [10] @ lit ''b''"
    by (simp add: crlf_source_def lit_def newline_def)
  have n: "\<not> re_search pat_betting_query (universal_newlines crlf_source)"
    by (simp add: u) (simp add: pat_betting_query_def lits_def lit_def)
  then have t: "fallback_text (universal_newlines crlf_source) = universal_newlines crlf_source"
    by (simp add: fallback_text_def re_sub_no_match)
  have f: "files (one_file target_file crlf_source) target_file = Some ?f"
    by (simp add: one_file_def)
  have s: "sound_io 2 (one_file target_file crlf_source)"
    by (simp add: sound_io_def one_file_def)
  from fallback_ok_result [OF f _ s, of init] n u t
  show ?thesis by (simp add: one_file_def crlf_source_def)
qed

theorem fallback_without_block_witness:
  "fst (create_simple_fallback_query init target_file (one_file target_file plain_source)) = True \<and>
   map_option data
     (files (snd (create_simple_fallback_query init target_file
        (one_file target_file plain_source))) target_file) = Some plain_source \<and>
   files (snd (create_simple_fallback_query init target_file
        (one_file target_file plain_source))) target_file =
     files (one_file target_file plain_source) target_file \<and>
   fst (read_text target_file (one_file target_file plain_source)) = Inr plain_source"
proof -
  let ?f = "\<lparr>decodable = True, data = plain_source\<rparr>"
  have u: "universal_newlines plain_source = plain_source"
    by (simp add: plain_source_def lit_def newline_def)
  have c: "13 \<notin> set (data ?f)"
    by (simp add: plain_source_def lit_def)
  have f: "files (one_file target_file plain_source) target_file = Some ?f"
    by (simp add: one_file_def)
  have s: "sound_io 2 (one_file target_file plain_source)"
    by (simp add: sound_io_def one_file_def)
  have n: "\<not> re_search pat_betting_query (universal_newlines (data ?f))"
    by (simp add: u) (simp add: plain_source_def pat_betting_query_def lits_def lit_def)
  from fallback_without_block [OF f _ s n, of init] u c f
  show ?thesis by simp
qed

section \<open>\<^verbatim>\<open>run_diagnosis\<close>\<close>

text \<open>
  C7: when the target file does not exist, \<^verbatim>\<open>run_diagnosis\<close> prints its three opening
  lines, tests the path, prints the not-found line and returns \<^verbatim>\<open>False\<close>: the trace
  holds no attempt to open a file and no line of \<^verbatim>\<open>analyze_error\<close>,
  \<^verbatim>\<open>find_sql_issues\<close> or the two fixing functions, and no file changes.
\<close>

theorem run_diagnosis_target_missing:
  assumes "files w target_file = None"
  shows "run_diagnosis upper self w =
     (False, w\<lparr>trace := trace w @
        [Print (Starting_diagnosis (name self)), Print (Specialty (specialty self)),
         Print (Experience (experience self)), Path_exists target_file,
         Print (Target_not_found target_file)]\<rparr>)"
  using assms
  by (simp add: run_diagnosis_def Let_def path_exists_def print_def emit_def)

theorem run_diagnosis_target_missing_witness:
  "fst (run_diagnosis ascii_upper init no_files) = False \<and>
   files (snd (run_diagnosis ascii_upper init no_files)) target_file = None \<and>
   trace (snd (run_diagnosis ascii_upper init no_files)) =
     [Print (Starting_diagnosis (name init)), Print (Specialty (specialty init)),
      Print (Experience (experience init)), Path_exists target_file,
      Print (Target_not_found target_file)]"
proof -
  have "files no_files target_file = None" by (simp add: no_files_def)
  from run_diagnosis_target_missing [OF this, of ascii_upper init]
  show ?thesis by (simp add: no_files_def)
qed

lemma run_diagnosis_steps:
  assumes "files w0 target_file \<noteq> None"
  shows "run_diagnosis upper self w0 =
     (let r1 = create_simple_fallback_query self target_file (before_fixes upper self w0)
      in if fst r1 then (True, print Fallback_applied (snd r1))
         else (let r2 = fix_sql_query self target_file (snd r1)
               in if fst r2 then (True, print Fixes_applied (snd r2))
                  else (False, print All_failed (snd r2))))"
proof -
  from assms obtain f where "files w0 target_file = Some f" by auto
  then show ?thesis
    by (simp add: run_diagnosis_def before_fixes_def Let_def split_def path_exists_def)
qed

lemma find_sql_issues_snd:
  "snd (find_sql_issues upper self p w) =
     (case read_result p w of
        Inl e \<Rightarrow> print (Error_reading_file e)
          ((emit (Open_read p) (print (Scanning p) w))\<lparr>faults := tl (faults w)\<rparr>)
      | Inr contents \<Rightarrow> (emit (Open_read p) (print (Scanning p) w))\<lparr>faults := tl (faults w)\<rparr>)"
  by (simp add: find_sql_issues_def read_text_cases Let_def split: sum.splits)

lemma trace_find_sql_issues:
  "\<exists>evs. trace (snd (find_sql_issues upper self p w)) = trace w @ evs \<and>
     (\<forall>n q. Print (Fixing_issues n q) \<notin> set evs)"
  by (simp add: find_sql_issues_snd split: sum.splits)

lemma files_find_sql_issues [simp]: "files (snd (find_sql_issues upper self p w)) = files w"
  by (simp add: find_sql_issues_snd split: sum.splits)

lemma faults_find_sql_issues [simp]:
  "faults (snd (find_sql_issues upper self p w)) = tl (faults w)"
  by (simp add: find_sql_issues_snd split: sum.splits)

lemma files_analyze_error [simp]: "files (snd (analyze_error self s w)) = files w"
  by (simp add: analyze_error_def Let_def)

lemma faults_analyze_error [simp]: "faults (snd (analyze_error self s w)) = faults w"
  by (simp add: analyze_error_def Let_def)

lemma files_before_fixes [simp]: "files (before_fixes upper self w0) = files w0"
  by (simp add: before_fixes_def Let_def split_def path_exists_def)

lemma faults_before_fixes [simp]: "faults (before_fixes upper self w0) = tl (faults w0)"
  by (simp add: before_fixes_def Let_def split_def path_exists_def)

lemma trace_before_fixes:
  "\<exists>evs. trace (before_fixes upper self w0) = trace w0 @ evs \<and>
     (\<forall>n q. Print (Fixing_issues n q) \<notin> set evs)"
proof -
  let ?w4 = "emit (Path_exists target_file)
     (print (Experience (experience self))
        (print (Specialty (specialty self)) (print (Starting_diagnosis (name self)) w0)))"
  let ?a = "analyze_error self
     (lit ''operator does not exist: character varying = integer'') ?w4"
  let ?w6 = "print (Analysis (fst ?a)) (snd ?a)"
  obtain evs where evs: "trace (snd (find_sql_issues upper self target_file ?w6))
      = trace ?w6 @ evs" and no: "\<forall>n q. Print (Fixing_issues n q) \<notin> set evs"
    using trace_find_sql_issues by blast
  have a: "trace (snd ?a) = trace ?w4 @ [Print (Analyzing_error (name self)
      (lit ''operator does not exist: character varying = integer''))]"
    by (simp add: analyze_error_def Let_def)
  have "before_fixes upper self w0 = print Applying_fixes
     (print (Found_issues (length (fst (find_sql_issues upper self target_file ?w6))))
        (snd (find_sql_issues upper self target_file ?w6)))"
    by (simp add: before_fixes_def Let_def split_def path_exists_def)
  with evs a have "trace (before_fixes upper self w0) = trace w0 @
     ([Print (Starting_diagnosis (name self)), Print (Specialty (specialty self)),
       Print (Experience (experience self)), Path_exists target_file,
       Print (Analyzing_error (name self)
          (lit ''operator does not exist: character varying = integer'')),
       Print (Analysis (fst ?a))] @ evs @
      [Print (Found_issues (length (fst (find_sql_issues upper self target_file ?w6)))),
       Print Applying_fixes])"
    by simp
  moreover from no have "\<forall>n q. Print (Fixing_issues n q) \<notin> set
     ([Print (Starting_diagnosis (name self)), Print (Specialty (specialty self)),
       Print (Experience (experience self)), Path_exists target_file,
       Print (Analyzing_error (name self)
          (lit ''operator does not exist: character varying = integer'')),
       Print (Analysis (fst ?a))] @ evs @
      [Print (Found_issues (length (fst (find_sql_issues upper self target_file ?w6)))),
       Print Applying_fixes])"
    by simp
  ultimately show ?thesis by blast
qed

lemma trace_fallback:
  "\<exists>evs. trace (snd (create_simple_fallback_query self p w)) = trace w @ evs \<and>
     (\<forall>n q. Print (Fixing_issues n q) \<notin> set evs)"
  by (auto simp: create_simple_fallback_query_def read_text_cases write_text_cases Let_def
      split: sum.splits list.splits io_outcome.splits)

lemma trace_fix:
  "\<exists>evs. trace (snd (fix_sql_query self p w)) =
     trace w @ Print (Fixing_issues (name self) p) # evs"
  by (auto simp: fix_sql_query_def read_text_cases write_text_cases Let_def
      split: sum.splits list.splits io_outcome.splits)

text \<open>When the read of the fallback fails, the file is as it was and one outcome is used up.\<close>

lemma fallback_read_failed:
  assumes "read_result p w = Inl e"
  shows "\<not> fst (create_simple_fallback_query self p w) \<and>
     files (snd (create_simple_fallback_query self p w)) = files w \<and>
     faults (snd (create_simple_fallback_query self p w)) = tl (faults w)"
  using assms by (simp add: create_simple_fallback_query_def read_text_cases Let_def)

text \<open>
  When the write of the fallback fails after the file was opened, the file is truncated to
  what had arrived and two outcomes are used up.
\<close>

lemma fallback_write_failed:
  assumes "read_result p w = Inr contents" and "tl (faults w) = Transfer_fails e k # outs"
  shows "\<not> fst (create_simple_fallback_query self p w) \<and>
     files (snd (create_simple_fallback_query self p w)) p =
       Some \<lparr>decodable = True, data = take k (fallback_text contents)\<rparr> \<and>
     faults (snd (create_simple_fallback_query self p w)) = outs"
  using assms
  by (simp add: create_simple_fallback_query_def read_text_cases write_text_cases Let_def)

lemma fix_read_failed:
  assumes "read_result p w = Inl e"
  shows "\<not> fst (fix_sql_query self p w)"
  using assms by (simp add: fix_sql_query_def read_text_cases Let_def)

text \<open>
  C6: when the target file exists, \<^verbatim>\<open>run_diagnosis\<close> first calls
  \<^verbatim>\<open>create_simple_fallback_query\<close>. If that returns \<^verbatim>\<open>True\<close> the run returns
  \<^verbatim>\<open>True\<close> and \<^verbatim>\<open>fix_sql_query\<close> is not called (its opening line is not among the
  events of the run). Otherwise \<^verbatim>\<open>fix_sql_query\<close> is called and its result, which may
  be either, is the result of the run. The run returns \<^verbatim>\<open>False\<close> exactly when both
  calls do.
\<close>

theorem run_diagnosis_fallback_first:
  assumes "files w0 target_file \<noteq> None"
  shows "(let r1 = create_simple_fallback_query self target_file (before_fixes upper self w0);
              r2 = fix_sql_query self target_file (snd r1);
              r = run_diagnosis upper self w0;
              new = drop (length (trace w0)) (trace (snd r))
          in (fst r1 \<longrightarrow>
                fst r \<and> snd r = print Fallback_applied (snd r1) \<and>
                (\<forall>n q. Print (Fixing_issues n q) \<notin> set new)) \<and>
             (\<not> fst r1 \<longrightarrow>
                fst r = fst r2 \<and>
                snd r = print (if fst r2 then Fixes_applied else All_failed) (snd r2) \<and>
                Print (Fixing_issues (name self) target_file) \<in> set new) \<and>
             (\<not> fst r \<longleftrightarrow> \<not> fst r1 \<and> \<not> fst r2))"
proof -
  let ?w9 = "before_fixes upper self w0"
  let ?r1 = "create_simple_fallback_query self target_file ?w9"
  let ?r2 = "fix_sql_query self target_file (snd ?r1)"
  let ?r = "run_diagnosis upper self w0"
  let ?new = "drop (length (trace w0)) (trace (snd ?r))"
  note steps = run_diagnosis_steps [OF assms, of upper self]
  obtain e1 where e1: "trace ?w9 = trace w0 @ e1"
    and n1: "\<forall>n q. Print (Fixing_issues n q) \<notin> set e1"
    using trace_before_fixes by blast
  obtain e2 where e2: "trace (snd ?r1) = trace ?w9 @ e2"
    and n2: "\<forall>n q. Print (Fixing_issues n q) \<notin> set e2"
    using trace_fallback by blast
  obtain e3 where e3: "trace (snd ?r2) =
      trace (snd ?r1) @ Print (Fixing_issues (name self) target_file) # e3"
    using trace_fix by blast
  have a: "fst ?r \<and> snd ?r = print Fallback_applied (snd ?r1) \<and>
      (\<forall>n q. Print (Fixing_issues n q) \<notin> set ?new)" if ok: "fst ?r1"
  proof -
    from ok steps have r: "?r = (True, print Fallback_applied (snd ?r1))"
      by (simp add: Let_def)
    then have "trace (snd ?r) = trace w0 @ (e1 @ e2 @ [Print Fallback_applied])"
      by (simp add: e1 e2)
    then have "?new = e1 @ e2 @ [Print Fallback_applied]" by simp
    with n1 n2 r show ?thesis by simp
  qed
  have b: "fst ?r = fst ?r2 \<and>
      snd ?r = print (if fst ?r2 then Fixes_applied else All_failed) (snd ?r2) \<and>
      Print (Fixing_issues (name self) target_file) \<in> set ?new" if no: "\<not> fst ?r1"
  proof -
    from no steps have r: "?r = (fst ?r2,
        print (if fst ?r2 then Fixes_applied else All_failed) (snd ?r2))"
      by (simp add: Let_def)
    then have "trace (snd ?r) = trace w0 @ (e1 @ e2 @
        Print (Fixing_issues (name self) target_file) # e3 @
        [Print (if fst ?r2 then Fixes_applied else All_failed)])"
      by (simp add: e1 e2 e3)
    then have "?new = e1 @ e2 @ Print (Fixing_issues (name self) target_file) # e3 @
        [Print (if fst ?r2 then Fixes_applied else All_failed)]"
      by simp
    with r show ?thesis by simp
  qed
  from a b have c: "\<not> fst ?r \<longleftrightarrow> \<not> fst ?r1 \<and> \<not> fst ?r2" by blast
  show ?thesis unfolding Let_def using a b c by blast
qed

theorem run_diagnosis_fallback_first_witness:
  "fst (run_diagnosis ascii_upper init (one_file target_file plain_source)) = True \<and>
   Print (Fixing_issues (name init) target_file)
     \<notin> set (trace (snd (run_diagnosis ascii_upper init (one_file target_file plain_source)))) \<and>
   fst (run_diagnosis ascii_upper init recovering_world) = True \<and>
   Print (Fixing_issues (name init) target_file)
     \<in> set (trace (snd (run_diagnosis ascii_upper init recovering_world))) \<and>
   fst (run_diagnosis ascii_upper init failing_world) = False \<and>
   Print (Fixing_issues (name init) target_file)
     \<in> set (trace (snd (run_diagnosis ascii_upper init failing_world)))"
proof -
  let ?f = "\<lparr>decodable = True, data = plain_source\<rparr>"
  let ?w = "one_file target_file plain_source"
  let ?b = "\<lambda>w. before_fixes ascii_upper init w"
  let ?r1 = "\<lambda>w. create_simple_fallback_query init target_file (?b w)"
  let ?r2 = "\<lambda>w. fix_sql_query init target_file (snd (?r1 w))"
  have fw: "files ?w target_file = Some ?f" and tw: "trace ?w = []" and qw: "faults ?w = []"
    by (simp_all add: one_file_def)
  have fv: "files recovering_world target_file = Some ?f" and tv: "trace recovering_world = []"
    and qv: "faults recovering_world = [Succeeds, Open_fails (PermissionError target_file)]"
    by (simp_all add: recovering_world_def with_outcomes_def one_file_def)
  have fu: "files failing_world target_file = Some ?f" and tu: "trace failing_world = []"
    and qu: "faults failing_world = [Succeeds, Succeeds,
       Transfer_fails (OSError target_file) 0, Open_fails (PermissionError target_file)]"
    by (simp_all add: failing_world_def with_outcomes_def one_file_def)
  have "sound_io 2 (?b ?w)" by (simp add: sound_io_def qw)
  with fallback_ok_result [of "?b ?w" target_file ?f init]
  have okw: "fst (?r1 ?w)" by (simp add: fw)
  have "read_result target_file (?b recovering_world) = Inl (PermissionError target_file)"
    by (simp add: read_result_def fv qv)
  from fallback_read_failed [OF this, of init]
  have nov: "\<not> fst (?r1 recovering_world)"
    and fv': "files (snd (?r1 recovering_world)) target_file = Some ?f"
    and qv': "faults (snd (?r1 recovering_world)) = []"
    by (simp_all add: fv qv)
  have "sound_io 2 (snd (?r1 recovering_world))" by (simp add: sound_io_def qv')
  with fix_ok_result [of "snd (?r1 recovering_world)" target_file ?f init] fv'
  have okv2: "fst (?r2 recovering_world)" by simp
  have "read_result target_file (?b failing_world) = Inr (universal_newlines plain_source)"
    by (simp add: read_result_def fu qu)
  moreover have "tl (faults (?b failing_world)) =
      Transfer_fails (OSError target_file) 0 # [Open_fails (PermissionError target_file)]"
    by (simp add: qu)
  ultimately have nou: "\<not> fst (?r1 failing_world)"
    and fu': "files (snd (?r1 failing_world)) target_file = Some \<lparr>decodable = True, data = []\<rparr>"
    and qu': "faults (snd (?r1 failing_world)) = [Open_fails (PermissionError target_file)]"
    using fallback_write_failed [of target_file "?b failing_world"
        "universal_newlines plain_source" "OSError target_file" 0
        "[Open_fails (PermissionError target_file)]" init]
    by simp_all
  have "read_result target_file (snd (?r1 failing_world)) = Inl (PermissionError target_file)"
    by (simp add: read_result_def fu' qu')
  then have nou2: "\<not> fst (?r2 failing_world)" by (rule fix_read_failed)
  have dw: "drop (length (trace ?w)) (trace (snd (run_diagnosis ascii_upper init ?w)))
      = trace (snd (run_diagnosis ascii_upper init ?w))"
    by (simp add: tw)
  have dv: "drop (length (trace recovering_world))
      (trace (snd (run_diagnosis ascii_upper init recovering_world)))
      = trace (snd (run_diagnosis ascii_upper init recovering_world))"
    by (simp add: tv)
  have du: "drop (length (trace failing_world))
      (trace (snd (run_diagnosis ascii_upper init failing_world)))
      = trace (snd (run_diagnosis ascii_upper init failing_world))"
    by (simp add: tu)
  have ew: "files ?w target_file \<noteq> None" by (simp add: fw)
  have ev: "files recovering_world target_file \<noteq> None" by (simp add: fv)
  have eu: "files failing_world target_file \<noteq> None" by (simp add: fu)
  from run_diagnosis_fallback_first [OF ew, of init ascii_upper, unfolded Let_def dw] okw
  have 1: "fst (run_diagnosis ascii_upper init ?w) = True \<and>
     Print (Fixing_issues (name init) target_file)
       \<notin> set (trace (snd (run_diagnosis ascii_upper init ?w)))"
    by blast
  from run_diagnosis_fallback_first [OF ev, of init ascii_upper, unfolded Let_def dv] nov okv2
  have 2: "fst (run_diagnosis ascii_upper init recovering_world) = True \<and>
     Print (Fixing_issues (name init) target_file)
       \<in> set (trace (snd (run_diagnosis ascii_upper init recovering_world)))"
    by blast
  from run_diagnosis_fallback_first [OF eu, of init ascii_upper, unfolded Let_def du] nou nou2
  have 3: "fst (run_diagnosis ascii_upper init failing_world) = False \<and>
     Print (Fixing_issues (name init) target_file)
       \<in> set (trace (snd (run_diagnosis ascii_upper init failing_world)))"
    by blast
  from 1 2 3 show ?thesis by simp
qed

section \<open>\<^verbatim>\<open>create_simple_fallback_query\<close> on files with query blocks\<close>

lemma prefix_in_butlast:
  assumes "p \<noteq> []" and "u \<noteq> []" and "prefix p (u @ p @ z)"
  shows "prefix p (u @ butlast p)"
proof -
  from assms(1) have p: "butlast p @ [last p] = p" by simp
  have "(u @ butlast p) @ ([last p] @ z) = u @ (butlast p @ [last p]) @ z"
    by simp
  then have eq: "(u @ butlast p) @ ([last p] @ z) = u @ p @ z"
    by (simp only: p)
  have a: "prefix p ((u @ butlast p) @ ([last p] @ z))"
    unfolding eq by (rule assms(3))
  have b: "prefix (u @ butlast p) ((u @ butlast p) @ ([last p] @ z))" by simp
  from assms(1,2) have "length p \<le> length (u @ butlast p)"
    by (cases u) simp_all
  with a b show ?thesis by (rule prefix_length_prefix)
qed

text \<open>No match of a pattern that opens with the literal \<open>p\<close> starts before the first \<open>p\<close>.\<close>

lemma re_sub_skip_prefix:
  assumes "p \<noteq> []"
  shows "\<not> sublist p (a @ butlast p) \<Longrightarrow>
     re_sub (lits p @ r) repl (a @ p @ z) = a @ re_sub (lits p @ r) repl (p @ z)"
proof (induction a)
  case Nil
  then show ?case by simp
next
  case (Cons x a)
  have "re_match (lits p @ r) ((x # a) @ p @ z) = None"
  proof (rule ccontr)
    assume "re_match (lits p @ r) ((x # a) @ p @ z) \<noteq> None"
    then obtain t where "re_match (lits p @ r) ((x # a) @ p @ z) = Some t" by auto
    then have "prefix p ((x # a) @ p @ z)" by (rule re_match_lits_prefix)
    with assms have "prefix p ((x # a) @ butlast p)" by (intro prefix_in_butlast) simp_all
    then have "sublist p ((x # a) @ butlast p)" by (rule prefix_imp_sublist)
    with Cons.prems show False by simp
  qed
  then have "re_sub (lits p @ r) repl ((x # a) @ p @ z)
      = x # re_sub (lits p @ r) repl (a @ p @ z)"
    by (simp add: re_sub_None)
  moreover from Cons.prems have "\<not> sublist p (a @ butlast p)"
    by (simp add: sublist_Cons_right)
  ultimately show ?case using Cons.IH by simp
qed

text \<open>A lazy star followed by a literal stops at the first occurrence of the literal.\<close>

lemma re_match_lazy_first:
  assumes "q \<noteq> []"
  shows "\<not> sublist q (m @ butlast q) \<Longrightarrow>
     re_match (Lazy_star Any_char # lits q) (m @ q @ z) = Some z"
proof (induction m)
  case Nil
  from assms obtain y ys where q: "q = y # ys" by (cases q) auto
  have "re_match (lits q) (q @ z) = Some z" by (simp add: re_match_lits_only)
  then show ?case by (simp add: q)
next
  case (Cons x m)
  have none: "re_match (lits q) (x # m @ q @ z) = None"
  proof (rule ccontr)
    assume "re_match (lits q) (x # m @ q @ z) \<noteq> None"
    then obtain t where "re_match (lits q) (x # m @ q @ z) = Some t" by auto
    then have "x # m @ q @ z = q @ t" by (simp add: re_match_lits_only)
    then have "prefix q ((x # m) @ q @ z)" by (simp add: prefix_def)
    with assms have "prefix q ((x # m) @ butlast q)" by (intro prefix_in_butlast) simp_all
    then have "sublist q ((x # m) @ butlast q)" by (rule prefix_imp_sublist)
    with Cons.prems show False by simp
  qed
  from Cons.prems have "\<not> sublist q (m @ butlast q)" by (simp add: sublist_Cons_right)
  with Cons.IH have "re_match (Lazy_star Any_char # lits q) (m @ q @ z) = Some z" by simp
  with none show ?case by simp
qed

lemma re_sub_block:
  assumes "p \<noteq> []" and "q \<noteq> []"
    and "\<not> sublist p (a @ butlast p)" and "\<not> sublist q (m @ butlast q)"
  shows "re_sub (lits p @ [Lazy_star Any_char] @ lits q) repl (a @ p @ m @ q @ z)
     = a @ repl @ re_sub (lits p @ [Lazy_star Any_char] @ lits q) repl z"
proof -
  let ?r = "lits p @ [Lazy_star Any_char] @ lits q"
  have "re_match ?r (p @ m @ q @ z) = re_match (Lazy_star Any_char # lits q) (m @ q @ z)"
    using re_match_lits [of p "[Lazy_star Any_char] @ lits q" "m @ q @ z"] by simp
  also have "\<dots> = Some z" using assms(2,4) by (rule re_match_lazy_first)
  finally have "re_match ?r (p @ m @ q @ z) = Some z" .
  moreover from assms(1) have "length z < length (p @ m @ q @ z)" by (cases p) simp_all
  ultimately have "re_sub ?r repl (p @ m @ q @ z) = repl @ re_sub ?r repl z"
    by (rule re_sub_Some)
  moreover have "re_sub ?r repl (a @ p @ (m @ q @ z)) = a @ re_sub ?r repl (p @ (m @ q @ z))"
    using assms(1,3) by (rule re_sub_skip_prefix)
  ultimately show ?thesis by simp
qed

text \<open>
  C3, amended: every block is replaced, not only the first. When the text is \<open>a\<close>, then a
  block (the opening token, \<open>m\<close>, the closing delimiter), then \<open>rest\<close>, where the opening
  token does not start inside \<open>a\<close> and the closing delimiter of the block is the first one
  after the opening token, the result is \<open>a\<close>, the fallback block, and then the result of
  the same replacement on \<open>rest\<close>: blocks in \<open>rest\<close> are replaced in turn.
\<close>

theorem fallback_replaces_every_block:
  assumes "\<not> str_contains (lit ''const bettingQuery = `'') (a @ lit ''const bettingQuery = '')"
    and "\<not> str_contains (lit ''`;'') (m @ lit ''`'')"
  shows "fallback_text (a @ lit ''const bettingQuery = `'' @ m @ lit ''`;'' @ rest)
     = a @ strip fallback_query @ fallback_text rest"
proof -
  have b1: "butlast (lit ''const bettingQuery = `'') = lit ''const bettingQuery = ''"
    and b2: "butlast (lit ''`;'') = lit ''`''"
    and n1: "lit ''const bettingQuery = `'' \<noteq> []" and n2: "lit ''`;'' \<noteq> []"
    by (simp_all add: lit_def)
  from assms(1) have "\<not> sublist (lit ''const bettingQuery = `'')
      (a @ lit ''const bettingQuery = '')"
    unfolding str_contains_sublist .
  then have "\<not> sublist (lit ''const bettingQuery = `'')
      (a @ butlast (lit ''const bettingQuery = `''))"
    unfolding b1 .
  moreover from assms(2) have "\<not> sublist (lit ''`;'') (m @ lit ''`'')"
    unfolding str_contains_sublist .
  then have "\<not> sublist (lit ''`;'') (m @ butlast (lit ''`;''))"
    unfolding b2 .
  ultimately show ?thesis using n1 n2
    unfolding fallback_text_def pat_betting_query_def by (intro re_sub_block)
qed

lemma fallback_block_head: "\<exists>t. strip fallback_query = 47 # t"
  by (simp add: strip_def fallback_query_def lit_def is_space_def)

text \<open>
  C3, as the specification states it: with two blocks only the first is replaced and the
  second is left as it was. \<^verbatim>\<open>re.sub\<close> is called without \<^verbatim>\<open>count\<close>, so both blocks
  are replaced.
\<close>

theorem fallback_second_block_counterexample:
  "fallback_text (lit ''const bettingQuery = `a`; const bettingQuery = `b`;'')
     = strip fallback_query @ lit '' '' @ strip fallback_query \<and>
   fallback_text (lit ''const bettingQuery = `a`; const bettingQuery = `b`;'')
     \<noteq> strip fallback_query @ lit '' const bettingQuery = `b`;''"
proof -
  have 1: "fallback_text (lit ''const bettingQuery = `a`; const bettingQuery = `b`;'')
     = strip fallback_query @ lit '' '' @ strip fallback_query"
    by (simp add: fallback_text_def pat_betting_query_def lits_def lit_def re_sub.simps)
  obtain t where t: "strip fallback_query = 47 # t" using fallback_block_head by blast
  have "lit '' '' @ strip fallback_query \<noteq> lit '' const bettingQuery = `b`;''"
    by (simp add: t lit_def)
  with 1 show ?thesis by simp
qed

theorem fallback_replaces_every_block_witness:
  "fallback_text (lit ''x = 1; const bettingQuery = `a`; y = 2; const bettingQuery = `b`; z'')
     = lit ''x = 1; '' @ strip fallback_query @ lit '' y = 2; '' @ strip fallback_query @
       lit '' z''"
proof -
  have z: "fallback_text (lit '' z'') = lit '' z''"
    by (simp add: fallback_text_def pat_betting_query_def lits_def lit_def re_sub.simps)
  have 2: "fallback_text (lit '' y = 2; '' @ lit ''const bettingQuery = `'' @ lit ''b'' @
      lit ''`;'' @ lit '' z'') = lit '' y = 2; '' @ strip fallback_query @ lit '' z''"
    by (subst fallback_replaces_every_block) (simp_all add: z, simp_all add: lit_def)
  have 1: "fallback_text (lit ''x = 1; '' @ lit ''const bettingQuery = `'' @ lit ''a'' @
      lit ''`;'' @ (lit '' y = 2; '' @ lit ''const bettingQuery = `'' @ lit ''b'' @
      lit ''`;'' @ lit '' z'')) =
      lit ''x = 1; '' @ strip fallback_query @ lit '' y = 2; '' @ strip fallback_query @
       lit '' z''"
    by (subst fallback_replaces_every_block) (simp_all add: 2, simp_all add: lit_def)
  have "lit ''x = 1; const bettingQuery = `a`; y = 2; const bettingQuery = `b`; z'' =
      lit ''x = 1; '' @ lit ''const bettingQuery = `'' @ lit ''a'' @
      lit ''`;'' @ (lit '' y = 2; '' @ lit ''const bettingQuery = `'' @ lit ''b'' @
      lit ''`;'' @ lit '' z'')"
    by (simp add: lit_def)
  with 1 show ?thesis by simp
qed

section \<open>\<^verbatim>\<open>fix_sql_query\<close> applied twice\<close>




section \<open>\<^verbatim>\<open>fix_sql_query\<close> on the string comparison\<close>

text \<open>
  A literal pattern \<open>p\<close> and a word \<open>w\<close> such that the last character of each does not
  occur in the other: no occurrence of \<open>p\<close> overlaps an occurrence of \<open>w\<close>.
\<close>

lemma no_match_inside_word:
  assumes "p \<noteq> []" and "v \<noteq> []" and "suffix v w"
    and "last p \<notin> set w" and "last w \<notin> set p"
  shows "re_match (lits p) (v @ b) = None"
proof (rule ccontr)
  assume "re_match (lits p) (v @ b) \<noteq> None"
  then obtain t where "re_match (lits p) (v @ b) = Some t" by auto
  then have "v @ b = p @ t" by (simp add: re_match_lits_only)
  then obtain u where "(v = p @ u \<and> u @ b = t) \<or> (v @ u = p \<and> b = u @ t)"
    by (auto simp: append_eq_append_conv2)
  then show False
  proof
    assume "v = p @ u \<and> u @ b = t"
    with assms(1) have "last p \<in> set v" by auto
    moreover from assms(3) have "set v \<subseteq> set w" by (rule set_mono_suffix)
    ultimately show False using assms(4) by auto
  next
    assume "v @ u = p \<and> b = u @ t"
    with assms(2) have "last v \<in> set p" by auto
    moreover from assms(2,3) have "last v = last w" by (auto simp: suffix_def)
    ultimately show False using assms(5) by simp
  qed
qed

lemma re_sub_through_word:
  assumes "p \<noteq> []" and "last p \<notin> set w" and "last w \<notin> set p"
  shows "suffix v w \<Longrightarrow> re_sub (lits p) repl (v @ b) = v @ re_sub (lits p) repl b"
proof (induction v)
  case Nil
  then show ?case by simp
next
  case (Cons x v)
  from Cons.prems assms have "re_match (lits p) ((x # v) @ b) = None"
    by (intro no_match_inside_word) simp_all
  then have "re_sub (lits p) repl ((x # v) @ b) = x # re_sub (lits p) repl (v @ b)"
    by (simp add: re_sub_None)
  moreover from Cons.prems have "suffix v w" by (rule suffix_ConsD)
  ultimately show ?case using Cons.IH by simp
qed

lemma match_ends_before_word:
  assumes "p @ t = a @ w @ b" and "p \<noteq> []" and "w \<noteq> []"
    and "last p \<notin> set w" and "last w \<notin> set p"
  shows "\<exists>a'. t = a' @ w @ b"
proof -
  from assms(1) obtain u where "(p = a @ u \<and> u @ t = w @ b) \<or> (p @ u = a \<and> t = u @ w @ b)"
    by (auto simp: append_eq_append_conv2)
  then show ?thesis
  proof
    assume h: "p = a @ u \<and> u @ t = w @ b"
    show ?thesis
    proof (cases "u = []")
      case True
      with h show ?thesis by auto
    next
      case False
      from h obtain v where "(u = w @ v \<and> v @ t = b) \<or> (u @ v = w \<and> t = v @ b)"
        by (auto simp: append_eq_append_conv2)
      then have False
      proof
        assume "u = w @ v \<and> v @ t = b"
        with assms(3) have "last w \<in> set u" by auto
        with h have "last w \<in> set p" by auto
        with assms(5) show False by simp
      next
        assume "u @ v = w \<and> t = v @ b"
        with False have "last u \<in> set w" by auto
        moreover from h False have "last p = last u" by auto
        ultimately show False using assms(4) by simp
      qed
      then show ?thesis ..
    qed
  next
    assume "p @ u = a \<and> t = u @ w @ b"
    then show ?thesis by auto
  qed
qed

lemma re_sub_keeps_word:
  assumes "p \<noteq> []" and "w \<noteq> []" and "last p \<notin> set w" and "last w \<notin> set p"
  shows "sublist w (re_sub (lits p) repl (a @ w @ b))"
proof (induction "length a" arbitrary: a rule: less_induct)
  case less
  show ?case
  proof (cases a)
    case Nil
    have "re_sub (lits p) repl (w @ b) = w @ re_sub (lits p) repl b"
      by (rule re_sub_through_word [OF assms(1,3,4) suffix_order.refl])
    with Nil show ?thesis by simp
  next
    case (Cons x a')
    show ?thesis
    proof (cases "re_match (lits p) (a @ w @ b)")
      case None
      with Cons have "re_sub (lits p) repl (a @ w @ b) = x # re_sub (lits p) repl (a' @ w @ b)"
        by (simp add: re_sub_None)
      moreover from Cons have "sublist w (re_sub (lits p) repl (a' @ w @ b))"
        by (intro less) simp
      ultimately show ?thesis by (simp add: sublist_Cons_right)
    next
      case (Some t)
      then have eq: "p @ t = a @ w @ b" by (simp add: re_match_lits_only)
      with assms obtain a'' where t: "t = a'' @ w @ b"
        using match_ends_before_word by blast
      from eq t assms(1) have len: "length a'' < length a"
        by (cases p) (auto dest: arg_cong [where f = length])
      from eq assms(1) have "length t < length (a @ w @ b)"
        by (cases p) (auto dest: arg_cong [where f = length])
      with Some have "re_sub (lits p) repl (a @ w @ b) = repl @ re_sub (lits p) repl t"
        by (rule re_sub_Some)
      moreover from len have "sublist w (re_sub (lits p) repl (a'' @ w @ b))" by (rule less)
      ultimately show ?thesis by (simp add: t sublist_append)
    qed
  qed
qed

lemma re_match_star_zero: "re_match r s \<noteq> None \<Longrightarrow> re_match (Star c # r) s \<noteq> None"
  by (cases s) (auto split: option.splits)

lemma re_match_star_one:
  assumes "accepts c x" and "re_match r xs \<noteq> None"
  shows "re_match (Star c # r) (x # xs) \<noteq> None"
proof -
  from assms(2) have "re_match (Star c # r) xs \<noteq> None" by (rule re_match_star_zero)
  with assms(1) show ?thesis by auto
qed

lemma where_win_tail:
  "re_match (lits (lit ''result'') @ [Star Space] @ lits (lit ''='') @ [Star Space] @
      lits (quote # lit ''win'' @ [quote])) (lit ''result = 'win'' @ quote # b) = Some b"
  by (simp add: lits_def lit_def quote_def is_space_def)

lemma where_win_matches:
  "re_match pat_where_win (lit ''WHERE result = 'win'' @ quote # b) \<noteq> None"
proof -
  let ?r = "lits (lit ''result'') @ [Star Space] @ lits (lit ''='') @ [Star Space] @
      lits (quote # lit ''win'' @ [quote])"
  have "re_match ?r (lit ''result = 'win'' @ quote # b) \<noteq> None"
    by (simp only: where_win_tail) simp
  moreover have "accepts Dot 32" by (simp add: newline_def)
  ultimately have "re_match (Star Dot # ?r) (32 # lit ''result = 'win'' @ quote # b) \<noteq> None"
    by (rule re_match_star_one [rotated])
  moreover have "re_match pat_where_win (lit ''WHERE'' @ (32 # lit ''result = 'win'' @ quote # b))
      = re_match (Star Dot # ?r) (32 # lit ''result = 'win'' @ quote # b)"
    unfolding pat_where_win_def
    using re_match_lits [of "lit ''WHERE''" "Star Dot # ?r"] by simp
  moreover have "lit ''WHERE result = 'win'' @ quote # b
      = lit ''WHERE'' @ (32 # lit ''result = 'win'' @ quote # b)"
    by (simp add: lit_def)
  ultimately show ?thesis by simp
qed

lemma where_win_replaced:
  assumes "sublist (lit ''WHERE result = 'win'' @ [quote]) s"
  shows "sublist (lit ''WHERE result = 'win'::VARCHAR'')
     (re_sub pat_where_win (lit ''WHERE result = 'win'::VARCHAR'') s)"
proof -
  from assms obtain a b where "s = a @ (lit ''WHERE result = 'win'' @ [quote]) @ b"
    by (auto simp: sublist_def)
  then have s: "s = a @ (lit ''WHERE result = 'win'' @ quote # b)" by simp
  have "re_search pat_where_win (a @ (lit ''WHERE result = 'win'' @ quote # b))"
    by (rule re_search_append [OF where_win_matches])
  with s have "re_search pat_where_win s" by simp
  then show ?thesis by (rule re_search_sub_contains)
qed

text \<open>
  For every text that holds \<^verbatim>\<open>WHERE result = 'win'\<close>, the text with the four
  substitutions applied holds \<^verbatim>\<open>WHERE result = 'win'::VARCHAR\<close>: the first
  substitution leaves the fragment in place, the second replaces a match by the cast form,
  and the third and fourth leave the cast form in place.
\<close>

lemma fix_sql_text_casts_win:
  assumes "str_contains (lit ''WHERE result = 'win'' @ [quote]) contents"
  shows "str_contains (lit ''WHERE result = 'win'::VARCHAR'') (fix_sql_text contents)"
proof -
  let ?w = "lit ''WHERE result = 'win'' @ [quote]"
  let ?v = "lit ''WHERE result = 'win'::VARCHAR''"
  from assms obtain a b where c: "contents = a @ ?w @ b"
    by (auto simp: str_contains_iff)
  have "sublist ?w (re_sub pat_user_id (lit ''[userId]'') (a @ ?w @ b))"
    unfolding pat_user_id_def
    by (rule re_sub_keeps_word) (simp_all add: lit_def quote_def)
  then have 2: "sublist ?v
      (re_sub pat_where_win ?v (re_sub pat_user_id (lit ''[userId]'') contents))"
    unfolding c by (rule where_win_replaced)
  then obtain a2 b2 where c2: "re_sub pat_where_win ?v
      (re_sub pat_user_id (lit ''[userId]'') contents) = a2 @ ?v @ b2"
    by (auto simp: sublist_def)
  have "sublist ?v (re_sub pat_limit (lit ''LIMIT $2::INTEGER'') (a2 @ ?v @ b2))"
    unfolding pat_limit_def
    by (rule re_sub_keeps_word) (simp_all add: lit_def)
  then obtain a3 b3 where c3: "re_sub pat_limit (lit ''LIMIT $2::INTEGER'') (a2 @ ?v @ b2)
      = a3 @ ?v @ b3"
    by (auto simp: sublist_def)
  have "sublist ?v (re_sub pat_winnings (lit ''winnings::NUMERIC > 0'') (a3 @ ?v @ b3))"
    unfolding pat_winnings_def
    by (rule re_sub_keeps_word) (simp_all add: lit_def)
  then have "sublist ?v (fix_sql_text contents)"
    by (simp only: fix_sql_text_def Let_def c2 c3)
  then show ?thesis by (simp only: str_contains_sublist)
qed

section \<open>What \<^verbatim>\<open>fix_sql_query\<close> writes for the string comparison\<close>

text \<open>
  C8: when the text read from the file holds \<^verbatim>\<open>WHERE result = 'win'\<close> (as a line or as
  part of one) and the file is read and written without an exception,
  \<^verbatim>\<open>fix_sql_query\<close> returns \<^verbatim>\<open>True\<close> and the file then holds the text read with the
  four substitutions applied, in which \<^verbatim>\<open>WHERE result = 'win'::VARCHAR\<close> occurs.
\<close>

theorem fix_sql_query_casts_win:
  assumes "files w p = Some f" and "decodable f" and "sound_io 2 w"
    and "str_contains (lit ''WHERE result = 'win'' @ [quote]) (universal_newlines (data f))"
  shows "fst (read_text p w) = Inr (universal_newlines (data f)) \<and>
     fst (fix_sql_query self p w) \<and>
     map_option data (files (snd (fix_sql_query self p w)) p) =
       Some (fix_sql_text (universal_newlines (data f))) \<and>
     str_contains (lit ''WHERE result = 'win'::VARCHAR'')
       (fix_sql_text (universal_newlines (data f)))"
proof -
  from assms(3) have "sound_io (Suc 1) w" by (simp add: numeral_2_eq_2)
  with assms(1,2) have rd: "read_result p w = Inr (universal_newlines (data f))"
    by (rule read_result_sound)
  from assms(4) have "str_contains (lit ''WHERE result = 'win'::VARCHAR'')
       (fix_sql_text (universal_newlines (data f)))"
    by (rule fix_sql_text_casts_win)
  with fix_ok_result [OF assms(1-3), of self] rd show ?thesis
    by (simp add: read_text_cases)
qed

theorem fix_sql_query_casts_win_witness:
  "fst (fix_sql_query init target_file (one_file target_file win_source)) = True \<and>
   map_option data
     (files (snd (fix_sql_query init target_file (one_file target_file win_source)))
        target_file) =
     Some (lit ''SELECT * FROM bets\<newline>WHERE result = 'win'::VARCHAR\<newline>LIMIT $2::INTEGER'')"
proof -
  let ?f = "\<lparr>decodable = True, data = win_source\<rparr>"
  have u: "universal_newlines win_source = win_source"
    by (simp add: win_source_def lit_def newline_def quote_def)
  have f: "files (one_file target_file win_source) target_file = Some ?f"
    by (simp add: one_file_def)
  have s: "sound_io 2 (one_file target_file win_source)"
    by (simp add: sound_io_def one_file_def)
  have c: "str_contains (lit ''WHERE result = 'win'' @ [quote]) (universal_newlines (data ?f))"
    by (simp add: u) (simp add: win_source_def lit_def quote_def)
  have v: "fix_sql_text win_source =
      lit ''SELECT * FROM bets\<newline>WHERE result = 'win'::VARCHAR\<newline>LIMIT $2::INTEGER''"
    by (simp add: win_source_def fix_sql_text_def pat_limit_def pat_user_id_def
        pat_where_win_def pat_winnings_def lits_def lit_def quote_def newline_def
        is_space_def Let_def re_sub.simps)
  from fix_sql_query_casts_win [OF f _ s c, of init] u v
  show ?thesis by simp
qed

end
